theory Spec2Isabelle
  imports Main "HOL-Library.Multiset"
begin

section \<open>Values, callbacks and the array primitives used by the emitters\<close>

text \<open>
  Event data is any JavaScript value; \<open>undefined\<close> is one of them (the default type
  parameter of both classes is \<open>void\<close>), and the private field \<open>_value\<close> of
  \<open>EventEmitter\<close> holds \<open>undefined\<close> until it is assigned.
\<close>

datatype 'a jsval = Undefined | Val 'a

type_synonym addr = nat

text \<open>
  A callback is a function object, compared by identity (\<open>indexOf\<close>, \<open>includes\<close>).
  \<^item> \<open>Fn f\<close> is a function supplied by the embedding application; its body is looked
    up in the environment.
  \<^item> \<open>Wrapped k a c\<close> is the closure \<open>wrappedCallback\<close> that \<open>subscribeOnce\<close> of the
    emitter at \<open>a\<close> creates around \<open>c\<close>; \<open>k\<close> is the allocation number that makes two
    closures around the same \<open>c\<close> different objects.
  \<^item> \<open>Resolve a\<close> is the \<open>resolve\<close> function of the promise \<open>nextEvent\<close> that the
    field initialiser of \<open>first\<close> creates for the emitter at \<open>a\<close>.
  \<^item> \<open>Relay k b g\<close> is the arrow function that \<open>pipe\<close> subscribes: it emits on the
    derived emitter \<open>b\<close>, after the transform \<open>g\<close> when there is one.
\<close>

datatype cb =
    Fn nat
  | Wrapped nat addr cb
  | Resolve addr
  | Relay nat addr "nat option"

text \<open>\<open>Array.prototype.indexOf\<close>: the first index of the element, \<open>-1\<close> when absent.\<close>

fun indexOf :: "'c list \<Rightarrow> 'c \<Rightarrow> int" where
  "indexOf [] c = -1"
| "indexOf (x # xs) c =
     (if x = c then 0 else (let i = indexOf xs c in if i < 0 then -1 else i + 1))"

text \<open>
  \<open>Array.prototype.splice(start, 1)\<close>, the array after the call: a negative \<open>start\<close>
  counts from the end (clamped at 0), a \<open>start\<close> beyond the end is clamped to the
  length, and one element is deleted when there is one at the resulting position.
\<close>

definition splice1 :: "'c list \<Rightarrow> int \<Rightarrow> 'c list" where
  "splice1 xs start =
     (let len = int (length xs);
          from = (if start < 0 then max (len + start) 0 else min start len)
      in take (nat from) xs @ drop (Suc (nat from)) xs)"

text \<open>
  The body shared by \<open>EventEmitter.unsubscribe\<close> and \<open>AsyncEventEmitter.unsubscribe\<close>:
  \<open>this.callbacks.splice(this.callbacks.indexOf(callback), 1)\<close>.
\<close>

definition unsubscribe_cbs :: "'c list \<Rightarrow> 'c \<Rightarrow> 'c list" where
  "unsubscribe_cbs cbs callback = splice1 cbs (indexOf cbs callback)"

section \<open>EventEmitter\<close>

text \<open>
  What a function of the embedding application can do to the emitters when it is invoked:
  the public operations, reading the property \<open>value\<close>, and throwing. The body of the
  function \<open>Fn f\<close>, for the event data it receives, is \<open>body env f\<close>; the transform
  functions handed to \<open>pipe\<close> are \<open>transform env g\<close>, and they are taken to return a
  value. What a callback does after it has returned (an \<open>async\<close> function that goes on
  after an \<open>await\<close>) is not part of a dispatch of \<open>EventEmitter\<close>, which calls
  \<open>void callback(eventData)\<close> and does not wait.
\<close>

datatype 'a cmd =
    Subscribe addr cb
  | Unsubscribe addr cb
  | Emit addr "'a jsval"
  | ReadValue addr
  | Throw

record 'a env =
  body :: "nat \<Rightarrow> 'a jsval \<Rightarrow> 'a cmd list"
  transform :: "nat \<Rightarrow> 'a jsval \<Rightarrow> 'a jsval"

text \<open>
  The observable history: every invocation of a callback with its argument, every read of
  \<open>value\<close> with the value read, and every entry into \<open>emit\<close> with its argument.
\<close>

datatype 'a event =
    Called cb "'a jsval"
  | Observed addr "'a jsval"
  | Emitting addr "'a jsval"

text \<open>
  An \<open>EventEmitter\<close> object: the fields \<open>callbacks\<close> and \<open>_value\<close>, and the state of
  the promise \<open>nextEvent\<close> behind the field \<open>first\<close> (\<open>None\<close> while pending, \<open>Some v\<close>
  once \<open>resolve(v)\<close> has been called).
\<close>

record 'a emitter =
  callbacks :: "cb list"
  pvalue :: "'a jsval"
  next_event :: "'a jsval option"

text \<open>
  The store: the emitters by address, the allocation counters for objects and closures,
  the queue of promise reactions that wait for the running synchronous code to finish
  (a job \<open>(a, v)\<close> is the \<open>then\<close> callback of \<open>first\<close> of the emitter at \<open>a\<close>, called with
  \<open>v\<close>), and the history.
\<close>

record 'a state =
  heap :: "addr \<Rightarrow> 'a emitter"
  next_addr :: addr
  next_id :: nat
  microtasks :: "(addr \<times> 'a jsval) list"
  trace :: "'a event list"

datatype 'a result = Normal "'a state" | Thrown "'a state" | Diverges

definition upd :: "addr \<Rightarrow> ('a emitter \<Rightarrow> 'a emitter) \<Rightarrow> 'a state \<Rightarrow> 'a state" where
  "upd a f s = s\<lparr>heap := (heap s)(a := f (heap s a))\<rparr>"

definition log :: "'a event \<Rightarrow> 'a state \<Rightarrow> 'a state" where
  "log e s = s\<lparr>trace := trace s @ [e]\<rparr>"

text \<open>\<open>subscribe\<close>: \<open>this.callbacks.push(callback)\<close>.\<close>

definition subscribe :: "addr \<Rightarrow> cb \<Rightarrow> 'a state \<Rightarrow> 'a state" where
  "subscribe a c s = upd a (\<lambda>e. e\<lparr>callbacks := callbacks e @ [c]\<rparr>) s"

text \<open>\<open>unsubscribe\<close>; the handle's \<open>unsubscribe()\<close> is the same call.\<close>

definition unsubscribe :: "addr \<Rightarrow> cb \<Rightarrow> 'a state \<Rightarrow> 'a state" where
  "unsubscribe a c s = upd a (\<lambda>e. e\<lparr>callbacks := unsubscribe_cbs (callbacks e) c\<rparr>) s"

text \<open>
  \<open>subscribeOnce\<close>: a new closure \<open>wrappedCallback\<close> is subscribed. The handle returned
  holds that closure, so the result is the closure and the new state.
\<close>

definition subscribeOnce :: "addr \<Rightarrow> cb \<Rightarrow> 'a state \<Rightarrow> cb \<times> 'a state" where
  "subscribeOnce a c s =
     (let w = Wrapped (next_id s) a c
      in (w, subscribe a w (s\<lparr>next_id := Suc (next_id s)\<rparr>)))"

text \<open>
  \<open>new EventEmitter()\<close>: the field initialisers run in order. \<open>callbacks\<close> is empty,
  \<open>_value\<close> is undefined, and \<open>first = this.nextEvent.then(...)\<close> evaluates the getter
  \<open>nextEvent\<close>, which subscribes the promise's \<open>resolve\<close> once.
\<close>

definition new_emitter :: "'a state \<Rightarrow> addr \<times> 'a state" where
  "new_emitter s =
     (let a = next_addr s;
          s1 = s\<lparr>heap := (heap s)(a := \<lparr>callbacks = [], pvalue = Undefined, next_event = None\<rparr>),
                 next_addr := Suc a\<rparr>
      in (a, snd (subscribeOnce a (Resolve a) s1)))"

text \<open>
  \<open>resolve(v)\<close> of the promise behind \<open>first\<close>: the first call fulfils the promise and
  queues its reaction; later calls do nothing.
\<close>

definition resolve :: "addr \<Rightarrow> 'a jsval \<Rightarrow> 'a state \<Rightarrow> 'a state" where
  "resolve a v s =
     (case next_event (heap s a) of
        None \<Rightarrow> (upd a (\<lambda>e. e\<lparr>next_event := Some v\<rparr>) s)\<lparr>microtasks := microtasks s @ [(a, v)]\<rparr>
      | Some _ \<Rightarrow> s)"

text \<open>
  The microtask checkpoint, reached when the running synchronous code has finished (at an
  \<open>await\<close>, or at the end of the script): every queued reaction runs, and the reaction of
  \<open>first\<close> is \<open>(value) => { this._value = value; }\<close>.
\<close>

definition run_microtasks :: "'a state \<Rightarrow> 'a state" where
  "run_microtasks s =
     (fold (\<lambda>(a, v). upd a (\<lambda>e. e\<lparr>pvalue := v\<rparr>)) (microtasks s) s)\<lparr>microtasks := []\<rparr>"

text \<open>
  \<open>emit\<close>, the loop of \<open>emit\<close> over the copy of \<open>callbacks\<close>, the invocation of one
  callback, and the execution of a body. A callback may call \<open>emit\<close> again, on the same
  emitter or on another one, without bound; the first argument limits the nesting depth
  of \<open>emit\<close> calls, and \<open>Diverges\<close> is the answer when the limit is reached. An exception
  leaves the state as it is at the throw and unwinds every caller (there is no
  \<open>try\<close> in the source).
\<close>

function emit :: "'a env \<Rightarrow> nat \<Rightarrow> addr \<Rightarrow> 'a jsval \<Rightarrow> 'a state \<Rightarrow> 'a result"
  and dispatch :: "'a env \<Rightarrow> nat \<Rightarrow> addr \<Rightarrow> 'a jsval \<Rightarrow> cb list \<Rightarrow> 'a state \<Rightarrow> 'a result"
  and call :: "'a env \<Rightarrow> nat \<Rightarrow> cb \<Rightarrow> 'a jsval \<Rightarrow> 'a state \<Rightarrow> 'a result"
  and run :: "'a env \<Rightarrow> nat \<Rightarrow> 'a cmd list \<Rightarrow> 'a state \<Rightarrow> 'a result"
where
  "emit env 0 a v s = Diverges"
| "emit env (Suc n) a v s =
     (let s1 = upd a (\<lambda>e. e\<lparr>pvalue := v\<rparr>) (log (Emitting a v) s)
      in dispatch env n a v (callbacks (heap s1 a)) s1)"
| "dispatch env n a v [] s = Normal s"
| "dispatch env n a v (c # cs) s =
     (if c \<in> set (callbacks (heap s a))
      then (case call env n c v s of
              Normal s' \<Rightarrow> dispatch env n a v cs s'
            | r \<Rightarrow> r)
      else dispatch env n a v cs s)"
| "call env n (Fn f) v s = run env n (body env f v) (log (Called (Fn f) v) s)"
| "call env n (Wrapped k a c) v s =
     (case call env n c v (log (Called (Wrapped k a c) v) s) of
        Normal s' \<Rightarrow> Normal (unsubscribe a (Wrapped k a c) s')
      | r \<Rightarrow> r)"
| "call env n (Resolve a) v s = Normal (resolve a v (log (Called (Resolve a) v) s))"
| "call env n (Relay k b g) v s =
     emit env n b (case g of None \<Rightarrow> v | Some t \<Rightarrow> transform env t v)
       (log (Called (Relay k b g) v) s)"
| "run env n [] s = Normal s"
| "run env n (Subscribe a c # cmds) s = run env n cmds (subscribe a c s)"
| "run env n (Unsubscribe a c # cmds) s = run env n cmds (unsubscribe a c s)"
| "run env n (Emit a v # cmds) s =
     (case emit env n a v s of
        Normal s' \<Rightarrow> run env n cmds s'
      | r \<Rightarrow> r)"
| "run env n (ReadValue a # cmds) s =
     run env n cmds (log (Observed a (pvalue (heap s a))) s)"
| "run env n (Throw # cmds) s = Thrown s"
  by pat_completeness auto

termination
  by (relation "inv_image (less_than <*lex*> less_than <*lex*> less_than)
        (\<lambda>x. case x of
           Inl (Inl (env, n, a, v, s)) \<Rightarrow> (n, 0::nat, 0::nat)
         | Inl (Inr (env, n, a, v, cs, s)) \<Rightarrow> (n, 3, length cs)
         | Inr (Inl (env, n, c, v, s)) \<Rightarrow> (n, 2, size c)
         | Inr (Inr (env, n, cmds, s)) \<Rightarrow> (n, 1, length cmds))") auto

text \<open>
  \<open>subscribeImmediate\<close>: \<open>subscribe\<close>, then the callback is called with \<open>_value\<close> when
  \<open>_value !== undefined\<close>.
\<close>

definition subscribeImmediate :: "'a env \<Rightarrow> nat \<Rightarrow> addr \<Rightarrow> cb \<Rightarrow> 'a state \<Rightarrow> 'a result" where
  "subscribeImmediate env n a c s =
     (let s1 = subscribe a c s
      in if pvalue (heap s1 a) \<noteq> Undefined then call env n c (pvalue (heap s1 a)) s1
         else Normal s1)"


text \<open>The state before any object exists.\<close>

definition init :: "'a state" where
  "init = \<lparr>heap = (\<lambda>_. \<lparr>callbacks = [], pvalue = Undefined, next_event = None\<rparr>),
           next_addr = 0, next_id = 0, microtasks = [], trace = []\<rparr>"

section \<open>AsyncEventEmitter\<close>

text \<open>
  A callback of an \<open>AsyncEventEmitter\<close> returns an \<open>Awaitable\<close>. Time is logical: a call
  made at time \<open>t\<close> either throws at once, or returns a value that settles at some time
  from \<open>t\<close> on, fulfilled or rejected with a reason (a plain value is an awaitable that is
  fulfilled at \<open>t\<close>). The hops of the promise machinery itself take no time; among
  awaitables that settle at the same time they give the order (\<open>hops\<close> below).
\<close>

datatype strategy = Sequential | Parallel

datatype outcome = Fulfilled | Rejected nat

datatype completion = Throws nat | Settles nat outcome

text \<open>
  A function of the application, called on an \<open>AsyncEventEmitter\<close>: what it does to the
  subscriber sequences before it returns, and \<open>Throws e\<close> or \<open>Settles d out\<close>, where \<open>d\<close> is
  the delay after which the awaitable it returns settles. These functions are taken not
  to call \<open>emit\<close>: a nested \<open>emit\<close> is made by the relay of \<open>pipe\<close> only.
\<close>

datatype acmd = ASubscribe addr cb | AUnsubscribe addr cb

record 'a aenv =
  abody :: "nat \<Rightarrow> 'a jsval \<Rightarrow> acmd list \<times> completion"
  atransform :: "nat \<Rightarrow> 'a jsval \<Rightarrow> 'a jsval"

datatype 'a aevent =
    Invoked cb "'a jsval" nat
  | AEmitting addr "'a jsval" nat

record aemitter =
  acallbacks :: "cb list"
  strategy :: strategy

text \<open>
  The store of the \<open>AsyncEventEmitter\<close>s. A \<open>subscribeOnce\<close> closure that has called
  its callback waits for the awaitable that the callback returned and then calls
  \<open>this.unsubscribe(wrappedCallback)\<close>: \<open>apending\<close> holds these calls that are still to
  come, each with the time at which the awaitable is fulfilled, in the order in which they
  will be made.
\<close>

record 'a astate =
  aheap :: "addr \<Rightarrow> aemitter"
  anext_addr :: addr
  anext_id :: nat
  apending :: "(nat \<times> addr \<times> cb) list"
  atrace :: "'a aevent list"

definition aupd :: "addr \<Rightarrow> (aemitter \<Rightarrow> aemitter) \<Rightarrow> 'a astate \<Rightarrow> 'a astate" where
  "aupd a f s = s\<lparr>aheap := (aheap s)(a := f (aheap s a))\<rparr>"

definition alog :: "'a aevent \<Rightarrow> 'a astate \<Rightarrow> 'a astate" where
  "alog e s = s\<lparr>atrace := atrace s @ [e]\<rparr>"

definition asubscribe :: "addr \<Rightarrow> cb \<Rightarrow> 'a astate \<Rightarrow> 'a astate" where
  "asubscribe a c s = aupd a (\<lambda>e. e\<lparr>acallbacks := acallbacks e @ [c]\<rparr>) s"

definition aunsubscribe :: "addr \<Rightarrow> cb \<Rightarrow> 'a astate \<Rightarrow> 'a astate" where
  "aunsubscribe a c s = aupd a (\<lambda>e. e\<lparr>acallbacks := unsubscribe_cbs (acallbacks e) c\<rparr>) s"

definition asubscribeOnce :: "addr \<Rightarrow> cb \<Rightarrow> 'a astate \<Rightarrow> cb \<times> 'a astate" where
  "asubscribeOnce a c s =
     (let w = Wrapped (anext_id s) a c
      in (w, asubscribe a w (s\<lparr>anext_id := Suc (anext_id s)\<rparr>)))"

text \<open>\<open>new AsyncEventEmitter(strategy)\<close>; the class has no field \<open>first\<close>.\<close>

definition new_aemitter :: "strategy \<Rightarrow> 'a astate \<Rightarrow> addr \<times> 'a astate" where
  "new_aemitter st s =
     (let a = anext_addr s
      in (a, s\<lparr>aheap := (aheap s)(a := \<lparr>acallbacks = [], strategy = st\<rparr>),
               anext_addr := Suc a\<rparr>))"

fun arun :: "acmd list \<Rightarrow> 'a astate \<Rightarrow> 'a astate" where
  "arun [] s = s"
| "arun (ASubscribe a c # cmds) s = arun cmds (asubscribe a c s)"
| "arun (AUnsubscribe a c # cmds) s = arun cmds (aunsubscribe a c s)"

text \<open>
  \<open>postpone T a w\<close> registers the call \<open>unsubscribe(w)\<close> on the emitter \<open>a\<close> for the time
  \<open>T\<close>, after the calls registered for \<open>T\<close> or earlier. \<open>settle T\<close> lets the time pass
  up to \<open>T\<close>: the calls registered for \<open>T\<close> or earlier are made, in order.
\<close>

fun enqueue :: "nat \<times> addr \<times> cb \<Rightarrow> (nat \<times> addr \<times> cb) list \<Rightarrow> (nat \<times> addr \<times> cb) list" where
  "enqueue x [] = [x]"
| "enqueue x (y # ys) = (if fst y \<le> fst x then y # enqueue x ys else x # y # ys)"

definition postpone :: "nat \<Rightarrow> addr \<Rightarrow> cb \<Rightarrow> 'a astate \<Rightarrow> 'a astate" where
  "postpone T a w s = s\<lparr>apending := enqueue (T, a, w) (apending s)\<rparr>"

definition settle :: "nat \<Rightarrow> 'a astate \<Rightarrow> 'a astate" where
  "settle T s =
     fold (\<lambda>(T', a, w). aunsubscribe a w) (takeWhile (\<lambda>p. fst p \<le> T) (apending s))
       (s\<lparr>apending := dropWhile (\<lambda>p. fst p \<le> T) (apending s)\<rparr>)"

text \<open>
  The promise returned by an \<open>async\<close> function is settled by a reaction to the awaitable
  that the function waits for, so after it, also when no time passes in between.
  \<open>hops\<close> counts the \<open>async\<close> functions between the awaitable of a function of the
  application and what a callback returns: none for the function itself, one for each
  \<open>subscribeOnce\<close> closure around it (unless the function throws, which rejects the
  promise of the closure before it returns), and one for a relay, which returns the
  promise of the \<open>async\<close> method \<open>emit\<close>.
\<close>

fun thrown :: "'a aenv \<Rightarrow> 'a jsval \<Rightarrow> cb \<Rightarrow> bool" where
  "thrown env v (Fn f) = (case snd (abody env f v) of Throws e \<Rightarrow> True | Settles d out \<Rightarrow> False)"
| "thrown env v c = False"

fun hops :: "'a aenv \<Rightarrow> 'a jsval \<Rightarrow> cb \<Rightarrow> nat" where
  "hops env v (Fn f) = 0"
| "hops env v (Wrapped k a c) = (if thrown env v c then 0 else Suc (hops env v c))"
| "hops env v (Resolve p) = 0"
| "hops env v (Relay k b g) = Suc 0"

text \<open>
  \<open>Promise.all\<close> over awaitables given by settling time, hops and outcome, called at
  time \<open>t\<close>: it rejects as soon as one of them rejects, with that reason (the earliest
  rejection; among simultaneous ones that with the fewest hops, and the first in the
  array among these), and otherwise is fulfilled when the last of them is.
\<close>

fun earliest :: "nat \<times> nat \<times> nat \<Rightarrow> (nat \<times> nat \<times> outcome) list \<Rightarrow> nat \<times> nat \<times> nat" where
  "earliest best [] = best"
| "earliest best ((T, h, Fulfilled) # ps) = earliest best ps"
| "earliest (T0, h0, e0) ((T, h, Rejected e) # ps) =
     earliest (if T < T0 \<or> (T = T0 \<and> h < h0) then (T, h, e) else (T0, h0, e0)) ps"

fun first_rejection :: "(nat \<times> nat \<times> outcome) list \<Rightarrow> (nat \<times> nat \<times> nat) option" where
  "first_rejection [] = None"
| "first_rejection ((T, h, Fulfilled) # ps) = first_rejection ps"
| "first_rejection ((T, h, Rejected e) # ps) = Some (earliest (T, h, e) ps)"

definition promise_all :: "nat \<Rightarrow> (nat \<times> nat \<times> outcome) list \<Rightarrow> nat \<times> outcome" where
  "promise_all t ps =
     (case first_rejection ps of
        Some (T, h, e) \<Rightarrow> (T, Rejected e)
      | None \<Rightarrow> (fold max (map fst ps) t, Fulfilled))"

text \<open>
  The functions of the dispatch, each with the time at which it is called and the state at
  that time:
  \<^item> \<open>aemit\<close> is \<open>emit\<close>, with the state when the promise it returns settles, the time
    and the outcome;
  \<^item> \<open>sequential\<close> is the loop \<open>for (const callback of callbacks) await callback(eventData)\<close>;
  \<^item> \<open>parallel\<close> is \<open>callbacks.map((callback) => callback(eventData))\<close>, which calls
    every callback at the time of the \<open>emit\<close> and gives the awaitables, or the exception of
    the first callback that throws;
  \<^item> \<open>acall\<close> is \<open>await callback(eventData)\<close>: the call, and the time that passes until
    what it returned has settled;
  \<^item> \<open>astart\<close> is the call \<open>callback(eventData)\<close> alone, with the state when the callback
    returns and the completion of what it returned.

  As in the source, a callback is called whether or not it is still in \<open>callbacks\<close>. A
  \<open>subscribeOnce\<close> closure is an \<open>async\<close> function: an exception of the callback it
  wraps is a rejection of its own promise, and it unsubscribes itself only when the
  awaitable of that callback is fulfilled, which \<open>postpone\<close> registers. \<open>resolve\<close>, subscribed
  by \<open>nextEvent\<close>, returns at once. A relay returns the promise of the \<open>emit\<close> that it
  calls on the derived emitter; the dispatch of the derived emitter is followed to its end
  where the relay is called, so that under the parallel strategy the part of it that
  takes place after the relay has returned comes before the calls of the later
  subscribers of the source. The second argument limits the nesting depth of \<open>emit\<close>
  calls (\<open>None\<close> when it is reached).
\<close>

function aemit :: "'a aenv \<Rightarrow> nat \<Rightarrow> nat \<Rightarrow> addr \<Rightarrow> 'a jsval \<Rightarrow> 'a astate
                    \<Rightarrow> ('a astate \<times> nat \<times> outcome) option"
  and sequential :: "'a aenv \<Rightarrow> nat \<Rightarrow> nat \<Rightarrow> 'a jsval \<Rightarrow> cb list \<Rightarrow> 'a astate
                    \<Rightarrow> ('a astate \<times> nat \<times> outcome) option"
  and parallel :: "'a aenv \<Rightarrow> nat \<Rightarrow> nat \<Rightarrow> 'a jsval \<Rightarrow> cb list \<Rightarrow> 'a astate
                    \<Rightarrow> ('a astate \<times> (nat + (nat \<times> nat \<times> outcome) list)) option"
  and acall :: "'a aenv \<Rightarrow> nat \<Rightarrow> nat \<Rightarrow> cb \<Rightarrow> 'a jsval \<Rightarrow> 'a astate
                    \<Rightarrow> ('a astate \<times> completion) option"
  and astart :: "'a aenv \<Rightarrow> nat \<Rightarrow> nat \<Rightarrow> cb \<Rightarrow> 'a jsval \<Rightarrow> 'a astate
                    \<Rightarrow> ('a astate \<times> completion) option"
where
  "aemit env 0 t a v s = None"
| "aemit env (Suc n) t a v s =
     (let s1 = alog (AEmitting a v t) s; cs = acallbacks (aheap s1 a)
      in if strategy (aheap s1 a) = Sequential then sequential env n t v cs s1
         else (case parallel env n t v cs s1 of
                 None \<Rightarrow> None
               | Some (s', Inl e) \<Rightarrow> Some (s', t, Rejected e)
               | Some (s', Inr ps) \<Rightarrow>
                   Some (settle (fst (promise_all t ps)) s', promise_all t ps)))"
| "sequential env n t v [] s = Some (s, t, Fulfilled)"
| "sequential env n t v (c # cs) s =
     (case acall env n t c v s of
        None \<Rightarrow> None
      | Some (s', Throws e) \<Rightarrow> Some (s', t, Rejected e)
      | Some (s', Settles T (Rejected e)) \<Rightarrow> Some (s', T, Rejected e)
      | Some (s', Settles T Fulfilled) \<Rightarrow> sequential env n T v cs s')"
| "parallel env n t v [] s = Some (s, Inr [])"
| "parallel env n t v (c # cs) s =
     (case astart env n t c v s of
        None \<Rightarrow> None
      | Some (s', Throws e) \<Rightarrow> Some (s', Inl e)
      | Some (s', Settles T out) \<Rightarrow>
          (case parallel env n t v cs s' of
             None \<Rightarrow> None
           | Some (s'', Inl e) \<Rightarrow> Some (s'', Inl e)
           | Some (s'', Inr ps) \<Rightarrow> Some (s'', Inr ((T, hops env v c, out) # ps))))"
| "acall env n t c v s =
     (case astart env n t c v s of
        None \<Rightarrow> None
      | Some (s', Throws e) \<Rightarrow> Some (s', Throws e)
      | Some (s', Settles T out) \<Rightarrow> Some (settle T s', Settles T out))"
| "astart env n t (Fn f) v s =
     (let s1 = arun (fst (abody env f v)) (alog (Invoked (Fn f) v t) s)
      in case snd (abody env f v) of
           Throws e \<Rightarrow> Some (s1, Throws e)
         | Settles d out \<Rightarrow> Some (s1, Settles (t + d) out))"
| "astart env n t (Wrapped k a c) v s =
     (case astart env n t c v (alog (Invoked (Wrapped k a c) v t) s) of
        None \<Rightarrow> None
      | Some (s', Throws e) \<Rightarrow> Some (s', Settles t (Rejected e))
      | Some (s', Settles T (Rejected e)) \<Rightarrow> Some (s', Settles T (Rejected e))
      | Some (s', Settles T Fulfilled) \<Rightarrow>
          Some (postpone T a (Wrapped k a c) s', Settles T Fulfilled))"
| "astart env n t (Resolve p) v s =
     Some (alog (Invoked (Resolve p) v t) s, Settles t Fulfilled)"
| "astart env n t (Relay k b g) v s =
     (case aemit env n t b (case g of None \<Rightarrow> v | Some h \<Rightarrow> atransform env h v)
             (alog (Invoked (Relay k b g) v t) s) of
        None \<Rightarrow> None
      | Some (s', T, out) \<Rightarrow> Some (s', Settles T out))"
  by pat_completeness auto

termination
  by (relation "inv_image (less_than <*lex*> less_than <*lex*> less_than)
        (\<lambda>x. case x of
           Inl (Inl (env, n, t, a, v, s)) \<Rightarrow> (n, 0::nat, 0::nat)
         | Inl (Inr (env, n, t, v, cs, s)) \<Rightarrow> (n, 3, length cs)
         | Inr (Inl (env, n, t, v, cs, s)) \<Rightarrow> (n, 3, length cs)
         | Inr (Inr (Inl (env, n, t, c, v, s))) \<Rightarrow> (n, 2, size c)
         | Inr (Inr (Inr (env, n, t, c, v, s))) \<Rightarrow> (n, 1, size c))") auto


definition ainit :: "'a astate" where
  "ainit = \<lparr>aheap = (\<lambda>_. \<lparr>acallbacks = [], strategy = Sequential\<rparr>),
            anext_addr = 0, anext_id = 0, apending = [], atrace = []\<rparr>"

section \<open>Notions used to state the properties\<close>


definition failure :: "'a aenv \<Rightarrow> 'a jsval \<Rightarrow> nat \<Rightarrow> nat option" where
  "failure env v f =
     (case snd (abody env f v) of
        Throws e \<Rightarrow> Some e
      | Settles d (Rejected e) \<Rightarrow> Some e
      | Settles d Fulfilled \<Rightarrow> None)"


text \<open>The functions up to and including the first one that fails.\<close>

definition upto_failure :: "'a aenv \<Rightarrow> 'a jsval \<Rightarrow> nat list \<Rightarrow> nat list" where
  "upto_failure env v fs = take (Suc (length (takeWhile (\<lambda>f. failure env v f = None) fs))) fs"

text \<open>
  The callbacks for which a dispatch is described in closed form: a function whose body,
  for the data \<open>v\<close>, only reads \<open>value\<close> and subscribes callbacks to the emitter \<open>a\<close>
  itself; the \<open>resolve\<close> of \<open>first\<close>; and a \<open>subscribeOnce\<close> closure of the emitter \<open>a\<close>
  around one of these. Such a callback returns normally and neither unsubscribes
  another callback nor calls \<open>emit\<close>.
\<close>

definition is_wrapped :: "cb \<Rightarrow> bool" where
  "is_wrapped c = (case c of Wrapped k a c' \<Rightarrow> True | _ \<Rightarrow> False)"

fun harmless :: "addr \<Rightarrow> 'a cmd \<Rightarrow> bool" where
  "harmless a (ReadValue b) = True"
| "harmless a (Subscribe b c) = (b = a)"
| "harmless a (Unsubscribe b c) = False"
| "harmless a (Emit b v) = False"
| "harmless a Throw = False"

fun quiet :: "'a env \<Rightarrow> addr \<Rightarrow> 'a jsval \<Rightarrow> cb \<Rightarrow> bool" where
  "quiet env a v (Fn f) = list_all (harmless a) (body env f v)"
| "quiet env a v (Wrapped k b c) = (b = a \<and> \<not> is_wrapped c \<and> quiet env a v c)"
| "quiet env a v (Resolve p) = True"
| "quiet env a v (Relay k b g) = False"

text \<open>
  The property \<open>value\<close> of each emitter; the events that the call of a quiet callback
  adds to the history (its own invocation, that of the callback it wraps, and the reads
  of \<open>value\<close>, given the values stored at the time); and the callbacks it subscribes.
\<close>

definition stored :: "'a state \<Rightarrow> addr \<Rightarrow> 'a jsval" where
  "stored s b = pvalue (heap s b)"

fun observed :: "(addr \<Rightarrow> 'a jsval) \<Rightarrow> 'a cmd list \<Rightarrow> 'a event list" where
  "observed vals [] = []"
| "observed vals (ReadValue b # cmds) = Observed b (vals b) # observed vals cmds"
| "observed vals (x # cmds) = observed vals cmds"

fun subscribed :: "'a cmd list \<Rightarrow> cb list" where
  "subscribed [] = []"
| "subscribed (Subscribe b c # cmds) = c # subscribed cmds"
| "subscribed (x # cmds) = subscribed cmds"

fun events :: "'a env \<Rightarrow> (addr \<Rightarrow> 'a jsval) \<Rightarrow> 'a jsval \<Rightarrow> cb \<Rightarrow> 'a event list" where
  "events env vals v (Fn f) = Called (Fn f) v # observed vals (body env f v)"
| "events env vals v (Wrapped k b c) = Called (Wrapped k b c) v # events env vals v c"
| "events env vals v (Resolve p) = [Called (Resolve p) v]"
| "events env vals v (Relay k b g) = [Called (Relay k b g) v]"

fun added :: "'a env \<Rightarrow> 'a jsval \<Rightarrow> cb \<Rightarrow> cb list" where
  "added env v (Fn f) = subscribed (body env f v)"
| "added env v (Wrapped k b c) = added env v c"
| "added env v (Resolve p) = []"
| "added env v (Relay k b g) = []"

text \<open>
  \<open>evolves a cbs tr s s'\<close>: from \<open>s\<close> to \<open>s'\<close> the subscriber sequence of \<open>a\<close> has become
  \<open>cbs\<close>, those of the other emitters and every stored value are unchanged, and the
  history has grown by \<open>tr\<close>.
\<close>

definition evolves :: "addr \<Rightarrow> cb list \<Rightarrow> 'a event list \<Rightarrow> 'a state \<Rightarrow> 'a state \<Rightarrow> bool" where
  "evolves a cbs tr s s' \<longleftrightarrow>
     callbacks (heap s' a) = cbs
     \<and> (\<forall>b. b \<noteq> a \<longrightarrow> callbacks (heap s' b) = callbacks (heap s b))
     \<and> stored s' = stored s
     \<and> trace s' = trace s @ tr"

text \<open>
  A history is consistent with the stored values when every read of \<open>value\<close> in it
  observes the argument of the latest \<open>emit\<close> entered before it on that emitter (and
  the value stored at the start when there is none); \<open>latest\<close> gives the stored values
  at the end of such a history. A run from \<open>s\<close> to \<open>s'\<close> \<open>extends\<close> the history in this way.
\<close>

fun consistent :: "(addr \<Rightarrow> 'a jsval) \<Rightarrow> 'a event list \<Rightarrow> bool" where
  "consistent vals [] = True"
| "consistent vals (Emitting a v # es) = consistent (vals(a := v)) es"
| "consistent vals (Observed a x # es) = (vals a = x \<and> consistent vals es)"
| "consistent vals (Called c v # es) = consistent vals es"

fun latest :: "(addr \<Rightarrow> 'a jsval) \<Rightarrow> 'a event list \<Rightarrow> addr \<Rightarrow> 'a jsval" where
  "latest vals [] = vals"
| "latest vals (Emitting a v # es) = latest (vals(a := v)) es"
| "latest vals (Observed a x # es) = latest vals es"
| "latest vals (Called c v # es) = latest vals es"

definition extends :: "'a state \<Rightarrow> 'a state \<Rightarrow> bool" where
  "extends s s' \<longleftrightarrow>
     (\<exists>tr. trace s' = trace s @ tr \<and> consistent (stored s) tr \<and> stored s' = latest (stored s) tr)"

definition sound :: "'a state \<Rightarrow> 'a result \<Rightarrow> bool" where
  "sound s r = (case r of Normal s' \<Rightarrow> extends s s' | Thrown s' \<Rightarrow> extends s s' | Diverges \<Rightarrow> True)"





text \<open>The arguments with which a callback has been invoked in a history, in order.\<close>

fun calls_of :: "cb \<Rightarrow> 'a event list \<Rightarrow> 'a jsval list" where
  "calls_of w [] = []"
| "calls_of w (Called c v # es) = (if c = w then v # calls_of w es else calls_of w es)"
| "calls_of w (e # es) = calls_of w es"



text \<open>
  What \<open>Promise.all\<close> receives from a function that does not throw: the time at which
  its awaitable settles, and how; and whether a function throws instead of returning.
\<close>

definition awaitable :: "'a aenv \<Rightarrow> 'a jsval \<Rightarrow> nat \<Rightarrow> nat \<Rightarrow> nat \<times> outcome" where
  "awaitable env v t f =
     (case snd (abody env f v) of Throws e \<Rightarrow> (t, Rejected e) | Settles d out \<Rightarrow> (t + d, out))"

definition throws :: "'a aenv \<Rightarrow> 'a jsval \<Rightarrow> nat \<Rightarrow> bool" where
  "throws env v f = (case snd (abody env f v) of Throws e \<Rightarrow> True | Settles d out \<Rightarrow> False)"

text \<open>
  The entry that \<open>Promise.all\<close> receives for a function of the application: its
  awaitable, with no hops.
\<close>

definition entry :: "'a aenv \<Rightarrow> 'a jsval \<Rightarrow> nat \<Rightarrow> nat \<Rightarrow> nat \<times> nat \<times> outcome" where
  "entry env v t f = (fst (awaitable env v t f), 0, snd (awaitable env v t f))"

text \<open>
  \<open>reaches d c\<close>: the call of the subscriber \<open>d\<close> is, or leads to, a call of \<open>c\<close>,
  because \<open>d\<close> is \<open>c\<close> or a \<open>subscribeOnce\<close> closure around it.
\<close>

fun reaches :: "cb \<Rightarrow> cb \<Rightarrow> bool" where
  "reaches (Wrapped k a d) c = (Wrapped k a d = c \<or> reaches d c)"
| "reaches d c = (d = c)"

section \<open>Example programs\<close>


definition three_subscribers :: "strategy \<Rightarrow> nat astate" where
  "three_subscribers st =
     asubscribe 0 (Fn 2) (asubscribe 0 (Fn 1) (asubscribe 0 (Fn 0) (snd (new_aemitter st ainit))))"

text \<open>
  Two subscribers of a parallel \<open>AsyncEventEmitter\<close>: the first rejects after 1 tick with
  the error 7, the second is fulfilled after 5 ticks.
\<close>

definition early_failure_env :: "nat aenv" where
  "early_failure_env =
     \<lparr>abody = (\<lambda>f v. if f = 0 then ([], Settles 1 (Rejected 7)) else ([], Settles 5 Fulfilled)),
      atransform = (\<lambda>g v. v)\<rparr>"

definition two_parallel :: "nat astate" where
  "two_parallel = asubscribe 0 (Fn 1) (asubscribe 0 (Fn 0) (snd (new_aemitter Parallel ainit)))"

text \<open>
  Two subscribers, of which the first unsubscribes the second when it is called: on an
  \<open>EventEmitter\<close> and on an \<open>AsyncEventEmitter\<close>.
\<close>

definition unsub_other_env :: "nat env" where
  "unsub_other_env =
     \<lparr>body = (\<lambda>f v. if f = 0 then [Unsubscribe 0 (Fn 1)] else []), transform = (\<lambda>g v. v)\<rparr>"

definition unsub_other_aenv :: "nat aenv" where
  "unsub_other_aenv =
     \<lparr>abody = (\<lambda>f v. if f = 0 then ([AUnsubscribe 0 (Fn 1)], Settles 0 Fulfilled)
                     else ([], Settles 0 Fulfilled)),
      atransform = (\<lambda>g v. v)\<rparr>"

definition two_async :: "strategy \<Rightarrow> nat astate" where
  "two_async st = asubscribe 0 (Fn 1) (asubscribe 0 (Fn 0) (snd (new_aemitter st ainit)))"

definition two_sync :: "nat state" where
  "two_sync = subscribe 0 (Fn 1) (subscribe 0 (Fn 0) (snd (new_emitter init)))"

text \<open>
  Two subscribers of an \<open>EventEmitter\<close>: \<open>Fn 1\<close> subscribes \<open>Fn 3\<close> when it is called, and
  \<open>Fn 2\<close> reads \<open>value\<close>.
\<close>

definition reader_env :: "nat env" where
  "reader_env =
     \<lparr>body = (\<lambda>f v. if f = 1 then [Subscribe 0 (Fn 3)] else [ReadValue 0]),
      transform = (\<lambda>g v. v)\<rparr>"

definition two_readers :: "nat state" where
  "two_readers = subscribe 0 (Fn 2) (subscribe 0 (Fn 1) (snd (new_emitter init)))"

text \<open>
  Two subscribers of an \<open>EventEmitter\<close>: \<open>Fn 0\<close> calls \<open>emit(2)\<close> on the emitter when it
  receives 1, and \<open>Fn 5\<close> reads \<open>value\<close>.
\<close>

definition nested_env :: "nat env" where
  "nested_env =
     \<lparr>body = (\<lambda>f v. if f = 0 then (if v = Val 1 then [Emit 0 (Val 2)] else [])
                     else [ReadValue 0]),
      transform = (\<lambda>g v. v)\<rparr>"

definition emitter_and_reader :: "nat state" where
  "emitter_and_reader = subscribe 0 (Fn 5) (subscribe 0 (Fn 0) (snd (new_emitter init)))"

text \<open>
  Functions that do nothing, and an \<open>EventEmitter\<close> just created.
\<close>

definition idle_env :: "nat env" where
  "idle_env = \<lparr>body = (\<lambda>f v. []), transform = (\<lambda>g v. v)\<rparr>"

definition fresh_emitter :: "nat state" where
  "fresh_emitter = snd (new_emitter init)"


definition idle_aenv :: "nat aenv" where
  "idle_aenv = \<lparr>abody = (\<lambda>f v. ([], Settles 1 Fulfilled)), atransform = (\<lambda>g v. v)\<rparr>"






text \<open>
  Functions of which \<open>Fn 0\<close> throws when it is called and the others do nothing.
\<close>

definition throwing_env :: "nat env" where
  "throwing_env = \<lparr>body = (\<lambda>f v. if f = 0 then [Throw] else []), transform = (\<lambda>g v. v)\<rparr>"

text \<open>
  A script that calls \<open>emit\<close> with each of the given values in turn, and what
  \<open>subscribeImmediate\<close> of the function \<open>Fn 0\<close>, which does nothing, adds to the history
  of a state, with the subscriber sequence that it leaves.
\<close>

fun emit_all :: "'a env \<Rightarrow> addr \<Rightarrow> 'a jsval list \<Rightarrow> 'a state \<Rightarrow> 'a state option" where
  "emit_all env a [] s = Some s"
| "emit_all env a (v # vs) s =
     (case emit env (Suc 0) a v s of Normal s' \<Rightarrow> emit_all env a vs s' | _ \<Rightarrow> None)"

definition replay :: "nat state \<Rightarrow> (nat event list \<times> cb list) option" where
  "replay s =
     (case subscribeImmediate idle_env (Suc 0) 0 (Fn 0) s of
        Normal s' \<Rightarrow> Some (drop (length (trace s)) (trace s'), callbacks (heap s' 0))
      | _ \<Rightarrow> None)"

text \<open>
  Subscribers of an \<open>AsyncEventEmitter\<close> of which \<open>Fn 1\<close> throws the error 9 when it is
  called and the others are fulfilled after 5 ticks.
\<close>

definition sync_failure_env :: "nat aenv" where
  "sync_failure_env =
     \<lparr>abody = (\<lambda>f v. if f = 1 then ([], Throws 9) else ([], Settles 5 Fulfilled)),
      atransform = (\<lambda>g v. v)\<rparr>"




section \<open>Unfolding the operations\<close>

lemmas sync_defs = new_emitter_def init_def subscribeOnce_def subscribe_def upd_def log_def
  resolve_def run_microtasks_def unsubscribe_def unsubscribe_cbs_def splice1_def Let_def

lemmas async_defs = new_aemitter_def ainit_def asubscribeOnce_def asubscribe_def aupd_def alog_def
  aunsubscribe_def unsubscribe_cbs_def splice1_def Let_def promise_all_def
  postpone_def settle_def

section \<open>Array primitives\<close>

lemma indexOf_absent: "c \<notin> set xs \<Longrightarrow> indexOf xs c = -1"
  by (induction xs) (auto simp: Let_def)

lemma indexOf_present:
  "c \<in> set xs \<Longrightarrow> indexOf xs c = int (length (takeWhile (\<lambda>x. x \<noteq> c) xs))"
  by (induction xs) (auto simp: Let_def)

lemma takeWhile_length_less:
  "c \<in> set xs \<Longrightarrow> length (takeWhile (\<lambda>x. x \<noteq> c) xs) < length xs"
  by (induction xs) auto

lemma remove1_takeWhile:
  "c \<in> set xs \<Longrightarrow>
   take (length (takeWhile (\<lambda>x. x \<noteq> c) xs)) xs
     @ drop (Suc (length (takeWhile (\<lambda>x. x \<noteq> c) xs))) xs = remove1 c xs"
  by (induction xs) auto

lemma unsubscribe_cbs_present:
  "c \<in> set xs \<Longrightarrow> unsubscribe_cbs xs c = remove1 c xs"
  using takeWhile_length_less [of c xs]
  by (simp add: unsubscribe_cbs_def splice1_def indexOf_present Let_def remove1_takeWhile)

lemma unsubscribe_cbs_absent:
  "c \<notin> set xs \<Longrightarrow> unsubscribe_cbs xs c = butlast xs"
  by (cases xs rule: rev_cases)
     (simp_all add: unsubscribe_cbs_def splice1_def indexOf_absent Let_def)

text \<open>
  C1. \<open>unsubscribe(callback)\<close> is specified to remove the first entry equal to the callback
  and to leave the subscriber sequence unchanged when the callback is absent. The second
  half fails, in both classes: \<open>indexOf\<close> returns \<open>-1\<close> for an absent callback and
  \<open>splice(-1, 1)\<close> deletes the last element. With the subscribers \<open>Fn 0\<close> and \<open>Fn 1\<close>,
  unsubscribing \<open>Fn 0\<close> removes it, and unsubscribing it a second time removes the
  unrelated \<open>Fn 1\<close>; unsubscribing \<open>Fn 2\<close>, which was never subscribed, removes \<open>Fn 1\<close>
  as well. On the \<open>EventEmitter\<close> the entry that is left is the one of \<open>first\<close>.
\<close>

theorem unsubscribe_twice_removes_other:
  "unsubscribe_cbs [Fn 0, Fn 1] (Fn 0) = [Fn 1]
   \<and> unsubscribe_cbs (unsubscribe_cbs [Fn 0, Fn 1] (Fn 0)) (Fn 0) = []
   \<and> unsubscribe_cbs [Fn 0, Fn 1] (Fn 2) = [Fn 0]
   \<and> callbacks (heap two_sync 0) = [Wrapped 0 0 (Resolve 0), Fn 0, Fn 1]
   \<and> callbacks (heap (unsubscribe 0 (Fn 0) two_sync) 0) = [Wrapped 0 0 (Resolve 0), Fn 1]
   \<and> callbacks (heap (unsubscribe 0 (Fn 0) (unsubscribe 0 (Fn 0) two_sync)) 0)
        = [Wrapped 0 0 (Resolve 0)]
   \<and> acallbacks (aheap (two_async Sequential) 0) = [Fn 0, Fn 1]
   \<and> acallbacks (aheap (aunsubscribe 0 (Fn 0) (two_async Sequential)) 0) = [Fn 1]
   \<and> acallbacks
        (aheap (aunsubscribe 0 (Fn 0) (aunsubscribe 0 (Fn 0) (two_async Sequential))) 0) = []"
  by (simp add: two_sync_def two_async_def sync_defs async_defs)

section \<open>EventEmitter: dispatch to quiet callbacks\<close>

lemma stored_log [simp]: "stored (log e s) = stored s"
  by (simp add: stored_def log_def fun_eq_iff)

lemma stored_subscribe [simp]: "stored (subscribe a c s) = stored s"
  by (simp add: stored_def subscribe_def upd_def fun_eq_iff)

lemma stored_unsubscribe [simp]: "stored (unsubscribe a c s) = stored s"
  by (simp add: stored_def unsubscribe_def upd_def fun_eq_iff)

lemma stored_resolve [simp]: "stored (resolve a v s) = stored s"
  by (simp add: stored_def resolve_def upd_def fun_eq_iff split: option.splits)

lemma trace_log [simp]: "trace (log e s) = trace s @ [e]"
  by (simp add: log_def)

lemma trace_subscribe [simp]: "trace (subscribe a c s) = trace s"
  by (simp add: subscribe_def upd_def)

lemma trace_unsubscribe [simp]: "trace (unsubscribe a c s) = trace s"
  by (simp add: unsubscribe_def upd_def)

lemma trace_resolve [simp]: "trace (resolve a v s) = trace s"
  by (simp add: resolve_def upd_def split: option.splits)

lemma callbacks_log [simp]: "callbacks (heap (log e s) b) = callbacks (heap s b)"
  by (simp add: log_def)

lemma callbacks_subscribe [simp]:
  "callbacks (heap (subscribe a c s) b)
     = (if b = a then callbacks (heap s a) @ [c] else callbacks (heap s b))"
  by (simp add: subscribe_def upd_def)

lemma callbacks_unsubscribe [simp]:
  "callbacks (heap (unsubscribe a c s) b)
     = (if b = a then unsubscribe_cbs (callbacks (heap s a)) c else callbacks (heap s b))"
  by (simp add: unsubscribe_def upd_def)

lemma callbacks_resolve [simp]: "callbacks (heap (resolve a v s) b) = callbacks (heap s b)"
  by (simp add: resolve_def upd_def split: option.splits)


lemma evolves_trans:
  "evolves a cbs tr s s' \<Longrightarrow> evolves a cbs' tr' s' s'' \<Longrightarrow> evolves a cbs' (tr @ tr') s s''"
  by (simp add: evolves_def)

lemma run_harmless:
  "list_all (harmless a) cmds \<Longrightarrow>
   \<exists>s'. run env n cmds s = Normal s'
      \<and> evolves a (callbacks (heap s a) @ subscribed cmds) (observed (stored s) cmds) s s'"
proof (induction cmds arbitrary: s)
  case Nil
  show ?case by (simp add: evolves_def)
next
  case (Cons x cmds)
  show ?case
  proof (cases x)
    case (Subscribe b c)
    with Cons.prems have b: "b = a" and rest: "list_all (harmless a) cmds" by simp_all
    from Cons.IH [OF rest, of "subscribe a c s"] obtain s' where
      "run env n cmds (subscribe a c s) = Normal s'"
      "evolves a (callbacks (heap (subscribe a c s) a) @ subscribed cmds)
         (observed (stored (subscribe a c s)) cmds) (subscribe a c s) s'"
      by blast
    then show ?thesis
      using Subscribe b
      by (auto simp: evolves_def)
  next
    case (ReadValue b)
    with Cons.prems have rest: "list_all (harmless a) cmds" by simp
    let ?s1 = "log (Observed b (pvalue (heap s b))) s"
    from Cons.IH [OF rest, of ?s1] obtain s' where
      "run env n cmds ?s1 = Normal s'"
      "evolves a (callbacks (heap ?s1 a) @ subscribed cmds) (observed (stored ?s1) cmds) ?s1 s'"
      by blast
    moreover have "pvalue (heap s b) = stored s b"
      by (simp add: stored_def)
    ultimately show ?thesis
      using ReadValue
      by (auto simp: evolves_def)
  qed (use Cons.prems in simp_all)
qed

lemma call_plain:
  assumes "quiet env a v c" and "\<not> is_wrapped c"
  shows "\<exists>s'. call env n c v s = Normal s'
      \<and> evolves a (callbacks (heap s a) @ added env v c) (events env (stored s) v c) s s'"
proof (cases c)
  case (Fn f)
  let ?s1 = "log (Called (Fn f) v) s"
  from assms Fn have "list_all (harmless a) (body env f v)" by simp
  from run_harmless [OF this, of env n ?s1] obtain s' where
    "run env n (body env f v) ?s1 = Normal s'"
    "evolves a (callbacks (heap ?s1 a) @ subscribed (body env f v))
       (observed (stored ?s1) (body env f v)) ?s1 s'"
    by blast
  then show ?thesis
    using Fn by (auto simp: evolves_def)
next
  case (Resolve p)
  then show ?thesis
    by (auto simp: evolves_def)
qed (use assms in \<open>simp_all add: is_wrapped_def\<close>)

lemma call_wrapped:
  assumes "quiet env a v (Wrapped k b c)"
  shows "\<exists>s'. call env n (Wrapped k b c) v s = Normal s'
      \<and> evolves a (unsubscribe_cbs (callbacks (heap s a) @ added env v c) (Wrapped k b c))
           (events env (stored s) v (Wrapped k b c)) s s'"
proof -
  let ?w = "Wrapped k b c"
  let ?s1 = "log (Called ?w v) s"
  from assms have b: "b = a" and c: "quiet env a v c" "\<not> is_wrapped c" by simp_all
  from call_plain [OF c, of n ?s1] obtain s' where
    r: "call env n c v ?s1 = Normal s'"
    and e: "evolves a (callbacks (heap ?s1 a) @ added env v c) (events env (stored ?s1) v c) ?s1 s'"
    by blast
  have "evolves a (unsubscribe_cbs (callbacks (heap s a) @ added env v c) ?w)
           (events env (stored s) v ?w) s (unsubscribe a ?w s')"
    using e by (auto simp: evolves_def)
  with r b show ?thesis by simp
qed


lemma unsubscribe_cbs_first:
  "w \<notin> set pre \<Longrightarrow> unsubscribe_cbs (pre @ w # rest) w = pre @ rest"
  by (simp add: unsubscribe_cbs_present remove1_append)

lemma dispatch_quiet:
  assumes "list_all (quiet env a v) cs"
    and "callbacks (heap s a) = pre @ cs @ post"
    and "list_all (\<lambda>c. \<not> is_wrapped c) pre"
  shows "\<exists>s'. dispatch env n a v cs s = Normal s'
      \<and> evolves a (pre @ filter (\<lambda>c. \<not> is_wrapped c) cs @ post @ concat (map (added env v) cs))
           (concat (map (events env (stored s) v) cs)) s s'"
  using assms
proof (induction cs arbitrary: s pre post)
  case Nil
  then show ?case by (simp add: evolves_def)
next
  case (Cons c cs)
  from Cons.prems have q: "quiet env a v c" and qs: "list_all (quiet env a v) cs" by simp_all
  from Cons.prems have live: "c \<in> set (callbacks (heap s a))" by simp
  show ?case
  proof (cases "is_wrapped c")
    case False
    from call_plain [OF q False, of n s] Cons.prems(2) obtain s1 where
      r1: "call env n c v s = Normal s1"
      and e1: "evolves a (pre @ c # cs @ post @ added env v c) (events env (stored s) v c) s s1"
      by auto
    from e1 have cb1: "callbacks (heap s1 a) = (pre @ [c]) @ cs @ (post @ added env v c)"
      and st1: "stored s1 = stored s"
      by (simp_all add: evolves_def)
    from Cons.prems(3) False have "list_all (\<lambda>c. \<not> is_wrapped c) (pre @ [c])" by simp
    from Cons.IH [OF qs cb1 this] obtain s' where
      r2: "dispatch env n a v cs s1 = Normal s'"
      and e2: "evolves a ((pre @ [c]) @ filter (\<lambda>c. \<not> is_wrapped c) cs @ (post @ added env v c)
                 @ concat (map (added env v) cs))
               (concat (map (events env (stored s1) v) cs)) s1 s'"
      by blast
    from evolves_trans [OF e1 e2] False st1
    have "evolves a (pre @ filter (\<lambda>c. \<not> is_wrapped c) (c # cs) @ post
                 @ concat (map (added env v) (c # cs)))
               (concat (map (events env (stored s) v) (c # cs))) s s'"
      by simp
    with live r1 r2 show ?thesis by simp
  next
    case True
    then obtain k b c' where c: "c = Wrapped k b c'"
      by (cases c) (simp_all add: is_wrapped_def)
    from Cons.prems(3) True have "c \<notin> set pre"
      by (auto simp: list_all_iff)
    then have u: "unsubscribe_cbs (pre @ c # (cs @ post @ added env v c')) c
                    = pre @ cs @ post @ added env v c'"
      by (rule unsubscribe_cbs_first)
    from call_wrapped [OF q [unfolded c], of n s] Cons.prems(2) u c obtain s1 where
      r1: "call env n c v s = Normal s1"
      and e1: "evolves a (pre @ cs @ post @ added env v c') (events env (stored s) v c) s s1"
      by auto
    from e1 have cb1: "callbacks (heap s1 a) = pre @ cs @ (post @ added env v c')"
      and st1: "stored s1 = stored s"
      by (simp_all add: evolves_def)
    from Cons.IH [OF qs cb1 Cons.prems(3)] obtain s' where
      r2: "dispatch env n a v cs s1 = Normal s'"
      and e2: "evolves a (pre @ filter (\<lambda>c. \<not> is_wrapped c) cs @ (post @ added env v c')
                 @ concat (map (added env v) cs))
               (concat (map (events env (stored s1) v) cs)) s1 s'"
      by blast
    from evolves_trans [OF e1 e2] True st1 c
    have "evolves a (pre @ filter (\<lambda>c. \<not> is_wrapped c) (c # cs) @ post
                 @ concat (map (added env v) (c # cs)))
               (concat (map (events env (stored s) v) (c # cs))) s s'"
      by simp
    with live r1 r2 show ?thesis by simp
  qed
qed

lemma stored_set_value [simp]:
  "stored (upd a (\<lambda>e. e\<lparr>pvalue := v\<rparr>) s) = (stored s)(a := v)"
  by (simp add: stored_def upd_def fun_eq_iff)

lemma callbacks_set_value [simp]:
  "callbacks (heap (upd a (\<lambda>e. e\<lparr>pvalue := v\<rparr>) s) b) = callbacks (heap s b)"
  by (simp add: upd_def)

lemma trace_set_value [simp]: "trace (upd a (\<lambda>e. e\<lparr>pvalue := v\<rparr>) s) = trace s"
  by (simp add: upd_def)

lemma emit_quiet:
  assumes "list_all (quiet env a v) (callbacks (heap s a))"
  shows "\<exists>s'. emit env (Suc n) a v s = Normal s'
      \<and> callbacks (heap s' a) = filter (\<lambda>c. \<not> is_wrapped c) (callbacks (heap s a))
            @ concat (map (added env v) (callbacks (heap s a)))
      \<and> (\<forall>b. b \<noteq> a \<longrightarrow> callbacks (heap s' b) = callbacks (heap s b))
      \<and> stored s' = (stored s)(a := v)
      \<and> trace s' = trace s @ Emitting a v
            # concat (map (events env ((stored s)(a := v)) v) (callbacks (heap s a)))"
proof -
  let ?s1 = "upd a (\<lambda>e. e\<lparr>pvalue := v\<rparr>) (log (Emitting a v) s)"
  let ?cs = "callbacks (heap s a)"
  have cb: "callbacks (heap ?s1 a) = [] @ ?cs @ []" by simp
  from dispatch_quiet [OF assms cb, of n] obtain s' where
    "dispatch env n a v ?cs ?s1 = Normal s'"
    "evolves a ([] @ filter (\<lambda>c. \<not> is_wrapped c) ?cs @ [] @ concat (map (added env v) ?cs))
       (concat (map (events env (stored ?s1) v) ?cs)) ?s1 s'"
    by auto
  then show ?thesis
    by (auto simp: evolves_def)
qed

lemma dispatch_append:
  "dispatch env n a v (xs @ ys) s
     = (case dispatch env n a v xs s of Normal s1 \<Rightarrow> dispatch env n a v ys s1 | r \<Rightarrow> r)"
proof (induction xs arbitrary: s)
  case Nil
  show ?case by simp
next
  case (Cons x xs)
  show ?case
    by (cases "call env n x v s") (simp_all add: Cons.IH)
qed

lemma run_harmless_then:
  "list_all (harmless a) cmds \<Longrightarrow>
   \<exists>s'. run env n (cmds @ rest0) s = run env n rest0 s'
      \<and> evolves a (callbacks (heap s a) @ subscribed cmds) (observed (stored s) cmds) s s'"
proof (induction cmds arbitrary: s)
  case Nil
  show ?case by (auto simp: evolves_def)
next
  case (Cons x cmds)
  show ?case
  proof (cases x)
    case (Subscribe b c)
    with Cons.prems have b: "b = a" and rest: "list_all (harmless a) cmds" by simp_all
    from Cons.IH [OF rest, of "subscribe a c s"] obtain s' where
      "run env n (cmds @ rest0) (subscribe a c s) = run env n rest0 s'"
      "evolves a (callbacks (heap (subscribe a c s) a) @ subscribed cmds)
         (observed (stored (subscribe a c s)) cmds) (subscribe a c s) s'"
      by blast
    then show ?thesis
      using Subscribe b
      by (auto simp: evolves_def)
  next
    case (ReadValue b)
    with Cons.prems have rest: "list_all (harmless a) cmds" by simp
    let ?s1 = "log (Observed b (pvalue (heap s b))) s"
    from Cons.IH [OF rest, of ?s1] obtain s' where
      "run env n (cmds @ rest0) ?s1 = run env n rest0 s'"
      "evolves a (callbacks (heap ?s1 a) @ subscribed cmds) (observed (stored ?s1) cmds) ?s1 s'"
      by blast
    moreover have "pvalue (heap s b) = stored s b"
      by (simp add: stored_def)
    ultimately show ?thesis
      using ReadValue
      by (auto simp: evolves_def)
  qed (use Cons.prems in simp_all)
qed

lemma emit_throwing:
  assumes cb: "callbacks (heap s a) = xs @ Fn f # ys"
    and q: "list_all (quiet env a v) xs"
    and b: "body env f v = cmds @ Throw # rest"
    and h: "list_all (harmless a) cmds"
  shows "\<exists>s'. emit env (Suc n) a v s = Thrown s'
      \<and> stored s' a = v
      \<and> trace s' = trace s @ Emitting a v
           # concat (map (events env ((stored s)(a := v)) v) xs)
           @ Called (Fn f) v # observed ((stored s)(a := v)) cmds
      \<and> callbacks (heap s' a) = filter (\<lambda>c. \<not> is_wrapped c) xs @ Fn f # ys
           @ concat (map (added env v) xs) @ subscribed cmds"
proof -
  let ?s0 = "upd a (\<lambda>e. e\<lparr>pvalue := v\<rparr>) (log (Emitting a v) s)"
  let ?nw = "\<lambda>c. \<not> is_wrapped c"
  have cb0: "callbacks (heap ?s0 a) = [] @ xs @ (Fn f # ys)" using cb by simp
  from dispatch_quiet [OF q cb0, of n] obtain s1 where
    d1: "dispatch env n a v xs ?s0 = Normal s1"
    and e1: "evolves a ([] @ filter ?nw xs @ (Fn f # ys) @ concat (map (added env v) xs))
               (concat (map (events env (stored ?s0) v) xs)) ?s0 s1"
    by auto
  let ?s2 = "log (Called (Fn f) v) s1"
  from run_harmless_then [OF h, of env n "Throw # rest" ?s2] obtain s' where
    r: "run env n (cmds @ Throw # rest) ?s2 = run env n (Throw # rest) s'"
    and e2: "evolves a (callbacks (heap ?s2 a) @ subscribed cmds) (observed (stored ?s2) cmds) ?s2 s'"
    by blast
  have c: "call env n (Fn f) v s1 = Thrown s'"
    using r by (simp add: b)
  have live: "Fn f \<in> set (callbacks (heap s1 a))"
    using e1 by (simp add: evolves_def)
  have "emit env (Suc n) a v s = dispatch env n a v (xs @ Fn f # ys) ?s0"
    by (simp add: Let_def cb)
  also have "\<dots> = dispatch env n a v (Fn f # ys) s1"
    by (simp only: dispatch_append d1 result.case)
  also have "\<dots> = Thrown s'"
    using live by (simp only: dispatch.simps c result.case if_True)
  finally have "emit env (Suc n) a v s = Thrown s'" .
  moreover from e1 e2 have "stored s' a = v"
    by (simp add: evolves_def)
  moreover from e1 e2 have "trace s' = trace s @ Emitting a v
           # concat (map (events env ((stored s)(a := v)) v) xs)
           @ Called (Fn f) v # observed ((stored s)(a := v)) cmds"
    by (simp add: evolves_def)
  moreover from e1 e2 have "callbacks (heap s' a) = filter ?nw xs @ Fn f # ys
           @ concat (map (added env v) xs) @ subscribed cmds"
    by (simp add: evolves_def)
  ultimately show ?thesis by blast
qed

section \<open>EventEmitter: \<open>emit\<close>\<close>

text \<open>
  C5, as the code has it. \<open>emit(v)\<close> assigns \<open>v\<close> to \<open>_value\<close>, copies the subscriber
  sequence and goes through the copy in order. The four parts of the statement:
  \<^item> when every subscriber returns normally, does not unsubscribe, does not call
    \<open>emit\<close> and subscribes callbacks to this emitter only (\<open>quiet\<close>),
    \<open>emit(v)\<close> returns, \<open>value\<close> is \<open>v\<close>, and the history grows by the entry into
    \<open>emit\<close> followed by one invocation with \<open>v\<close> for each entry of the copy, in the
    order of subscription, each read of \<open>value\<close> observing \<open>v\<close>; the callbacks subscribed
    during the dispatch (\<open>added\<close>) are in the subscriber sequence afterwards and are not
    invoked by this \<open>emit\<close>, and \<open>subscribeOnce\<close> closures have removed themselves;
  \<^item> when such subscribers \<open>xs\<close> are followed by a function that throws, \<open>emit(v)\<close>
    throws: the entries \<open>xs\<close> and the function have been invoked, and the entries \<open>ys\<close>
    after it have not, although they are still subscribed;
  \<^item> for any subscribers: when the dispatch has gone through the entries \<open>xs\<close> that
    precede an entry \<open>c\<close> of the copy and has left the state \<open>s1\<close>, \<open>c\<close> is invoked if
    it is in the subscriber sequence of \<open>s1\<close> and skipped if it is not; if the call
    returns, the dispatch goes on with the entries after \<open>c\<close>, and if it throws,
    \<open>emit\<close> throws and no later entry is visited;
  \<^item> for any subscribers: once the call of an entry has thrown, \<open>emit\<close> has thrown, in
    the state that the call left, whatever entries follow.

  An entry is a position of the copy: a callback that was subscribed twice has two
  entries and is invoked at each of them.
\<close>

theorem emit_dispatches_snapshot:
  "(list_all (quiet env a v) (callbacks (heap s a)) \<longrightarrow>
      (\<exists>s'. emit env (Suc n) a v s = Normal s'
         \<and> stored s' a = v
         \<and> trace s' = trace s @ Emitting a v
              # concat (map (events env ((stored s)(a := v)) v) (callbacks (heap s a)))
         \<and> callbacks (heap s' a) = filter (\<lambda>c. \<not> is_wrapped c) (callbacks (heap s a))
              @ concat (map (added env v) (callbacks (heap s a)))))
   \<and> (callbacks (heap s a) = xs @ Fn f # ys \<and> list_all (quiet env a v) xs
        \<and> body env f v = cmds @ Throw # rest \<and> list_all (harmless a) cmds \<longrightarrow>
      (\<exists>s'. emit env (Suc n) a v s = Thrown s'
         \<and> stored s' a = v
         \<and> trace s' = trace s @ Emitting a v
              # concat (map (events env ((stored s)(a := v)) v) xs)
              @ Called (Fn f) v # observed ((stored s)(a := v)) cmds
         \<and> callbacks (heap s' a) = filter (\<lambda>c. \<not> is_wrapped c) xs @ Fn f # ys
              @ concat (map (added env v) xs) @ subscribed cmds))
   \<and> (callbacks (heap s a) = xs @ c # ys
        \<and> dispatch env n a v xs (upd a (\<lambda>e. e\<lparr>pvalue := v\<rparr>) (log (Emitting a v) s)) = Normal s1 \<longrightarrow>
      emit env (Suc n) a v s
        = (if c \<in> set (callbacks (heap s1 a))
           then (case call env n c v s1 of Normal s2 \<Rightarrow> dispatch env n a v ys s2 | r \<Rightarrow> r)
           else dispatch env n a v ys s1))
   \<and> (callbacks (heap s a) = xs @ ys
        \<and> dispatch env n a v xs (upd a (\<lambda>e. e\<lparr>pvalue := v\<rparr>) (log (Emitting a v) s)) = Thrown s1 \<longrightarrow>
      emit env (Suc n) a v s = Thrown s1)"
proof (intro conjI impI)
  assume "list_all (quiet env a v) (callbacks (heap s a))"
  from emit_quiet [OF this, of n]
  show "\<exists>s'. emit env (Suc n) a v s = Normal s'
         \<and> stored s' a = v
         \<and> trace s' = trace s @ Emitting a v
              # concat (map (events env ((stored s)(a := v)) v) (callbacks (heap s a)))
         \<and> callbacks (heap s' a) = filter (\<lambda>c. \<not> is_wrapped c) (callbacks (heap s a))
              @ concat (map (added env v) (callbacks (heap s a)))"
    by auto
next
  assume "callbacks (heap s a) = xs @ Fn f # ys \<and> list_all (quiet env a v) xs
        \<and> body env f v = cmds @ Throw # rest \<and> list_all (harmless a) cmds"
  then show "\<exists>s'. emit env (Suc n) a v s = Thrown s'
         \<and> stored s' a = v
         \<and> trace s' = trace s @ Emitting a v
              # concat (map (events env ((stored s)(a := v)) v) xs)
              @ Called (Fn f) v # observed ((stored s)(a := v)) cmds
         \<and> callbacks (heap s' a) = filter (\<lambda>c. \<not> is_wrapped c) xs @ Fn f # ys
              @ concat (map (added env v) xs) @ subscribed cmds"
    using emit_throwing [of s a xs f ys env v cmds rest n] by blast
next
  assume "callbacks (heap s a) = xs @ c # ys
        \<and> dispatch env n a v xs (upd a (\<lambda>e. e\<lparr>pvalue := v\<rparr>) (log (Emitting a v) s)) = Normal s1"
  then show "emit env (Suc n) a v s
        = (if c \<in> set (callbacks (heap s1 a))
           then (case call env n c v s1 of Normal s2 \<Rightarrow> dispatch env n a v ys s2 | r \<Rightarrow> r)
           else dispatch env n a v ys s1)"
    by (simp add: dispatch_append)
next
  assume "callbacks (heap s a) = xs @ ys
        \<and> dispatch env n a v xs (upd a (\<lambda>e. e\<lparr>pvalue := v\<rparr>) (log (Emitting a v) s)) = Thrown s1"
  then show "emit env (Suc n) a v s = Thrown s1"
    by (simp add: dispatch_append)
qed

text \<open>
  C5, as stated, fails when a subscriber throws: \<open>Fn 0\<close> throws, \<open>emit(5)\<close> throws with
  it, and \<open>Fn 1\<close>, which was subscribed after \<open>Fn 0\<close> and is still subscribed, has not
  been invoked.
\<close>

theorem emit_stops_at_throwing_subscriber:
  "callbacks (heap two_sync 0) = [Wrapped 0 0 (Resolve 0), Fn 0, Fn 1]
   \<and> (case emit throwing_env (Suc 0) 0 (Val 5) two_sync of
        Thrown s \<Rightarrow> Some (trace s, callbacks (heap s 0))
      | Normal s \<Rightarrow> None | Diverges \<Rightarrow> None)
     = Some ([Emitting 0 (Val 5), Called (Wrapped 0 0 (Resolve 0)) (Val 5),
              Called (Resolve 0) (Val 5), Called (Fn 0) (Val 5)], [Fn 0, Fn 1])"
  by (simp add: throwing_env_def two_sync_def sync_defs)

theorem emit_dispatches_snapshot_witness:
  "list_all (quiet reader_env 0 (Val 5)) (callbacks (heap two_readers 0))
   \<and> (\<exists>s'. emit reader_env (Suc 0) 0 (Val 5) two_readers = Normal s'
         \<and> stored s' 0 = Val 5
         \<and> trace s' = [Emitting 0 (Val 5), Called (Wrapped 0 0 (Resolve 0)) (Val 5),
              Called (Resolve 0) (Val 5), Called (Fn 1) (Val 5), Called (Fn 2) (Val 5),
              Observed 0 (Val 5)]
         \<and> callbacks (heap s' 0) = [Fn 1, Fn 2, Fn 3])
   \<and> callbacks (heap two_sync 0) = [Wrapped 0 0 (Resolve 0)] @ Fn 0 # [Fn 1]
   \<and> list_all (quiet throwing_env 0 (Val 5)) [Wrapped 0 0 (Resolve 0)]
   \<and> body throwing_env 0 (Val 5) = [] @ Throw # []
   \<and> (\<exists>s'. emit throwing_env (Suc 0) 0 (Val 5) two_sync = Thrown s'
         \<and> stored s' 0 = Val 5
         \<and> trace s' = [Emitting 0 (Val 5), Called (Wrapped 0 0 (Resolve 0)) (Val 5),
              Called (Resolve 0) (Val 5), Called (Fn 0) (Val 5)]
         \<and> callbacks (heap s' 0) = [Fn 0, Fn 1])
   \<and> callbacks (heap two_sync 0) = [Wrapped 0 0 (Resolve 0), Fn 0] @ Fn 1 # []
   \<and> (\<exists>s1. dispatch unsub_other_env 0 0 (Val 5) [Wrapped 0 0 (Resolve 0), Fn 0]
              (upd 0 (\<lambda>e. e\<lparr>pvalue := Val 5\<rparr>) (log (Emitting 0 (Val 5)) two_sync)) = Normal s1
         \<and> Fn 1 \<notin> set (callbacks (heap s1 0))
         \<and> emit unsub_other_env (Suc 0) 0 (Val 5) two_sync = Normal s1
         \<and> trace s1 = [Emitting 0 (Val 5), Called (Wrapped 0 0 (Resolve 0)) (Val 5),
              Called (Resolve 0) (Val 5), Called (Fn 0) (Val 5)])
   \<and> callbacks (heap two_sync 0) = [Wrapped 0 0 (Resolve 0), Fn 0] @ [Fn 1]
   \<and> (\<exists>s1. dispatch throwing_env 0 0 (Val 5) [Wrapped 0 0 (Resolve 0), Fn 0]
              (upd 0 (\<lambda>e. e\<lparr>pvalue := Val 5\<rparr>) (log (Emitting 0 (Val 5)) two_sync)) = Thrown s1
         \<and> emit throwing_env (Suc 0) 0 (Val 5) two_sync = Thrown s1)"
proof -
  have cbs: "callbacks (heap two_readers 0) = [Wrapped 0 0 (Resolve 0), Fn 1, Fn 2]"
    and tr: "trace two_readers = []"
    by (simp_all add: two_readers_def sync_defs)
  have q: "list_all (quiet reader_env 0 (Val 5)) (callbacks (heap two_readers 0))"
    by (simp add: cbs reader_env_def is_wrapped_def)
  from emit_dispatches_snapshot [of reader_env 0 "Val 5" two_readers 0, THEN conjunct1] q
  have p1: "\<exists>s'. emit reader_env (Suc 0) 0 (Val 5) two_readers = Normal s'
         \<and> stored s' 0 = Val 5
         \<and> trace s' = [Emitting 0 (Val 5), Called (Wrapped 0 0 (Resolve 0)) (Val 5),
              Called (Resolve 0) (Val 5), Called (Fn 1) (Val 5), Called (Fn 2) (Val 5),
              Observed 0 (Val 5)]
         \<and> callbacks (heap s' 0) = [Fn 1, Fn 2, Fn 3]"
    by (simp add: cbs tr reader_env_def is_wrapped_def del: emit.simps)
  have tr2: "trace two_sync = []"
    by (simp add: two_sync_def sync_defs)
  have g: "callbacks (heap two_sync 0) = [Wrapped 0 0 (Resolve 0)] @ Fn 0 # [Fn 1]"
    by (simp add: two_sync_def sync_defs)
  have gq: "list_all (quiet throwing_env 0 (Val 5)) [Wrapped 0 0 (Resolve 0)]"
    by (simp add: is_wrapped_def)
  have gb: "body throwing_env 0 (Val 5) = [] @ Throw # []"
    by (simp add: throwing_env_def)
  from emit_dispatches_snapshot
         [of throwing_env 0 "Val 5" two_sync 0 "[Wrapped 0 0 (Resolve 0)]" 0 "[Fn 1]" "[]" "[]",
          THEN conjunct2, THEN conjunct1] g gq gb
  have pt: "\<exists>s'. emit throwing_env (Suc 0) 0 (Val 5) two_sync = Thrown s'
         \<and> stored s' 0 = Val 5
         \<and> trace s' = [Emitting 0 (Val 5), Called (Wrapped 0 0 (Resolve 0)) (Val 5),
              Called (Resolve 0) (Val 5), Called (Fn 0) (Val 5)]
         \<and> callbacks (heap s' 0) = [Fn 0, Fn 1]"
    by (simp add: tr2 is_wrapped_def del: emit.simps)
  have h: "callbacks (heap two_sync 0) = [Wrapped 0 0 (Resolve 0), Fn 0] @ Fn 1 # []"
    by (simp add: two_sync_def sync_defs)
  have "\<exists>s1. dispatch unsub_other_env 0 0 (Val 5) [Wrapped 0 0 (Resolve 0), Fn 0]
              (upd 0 (\<lambda>e. e\<lparr>pvalue := Val 5\<rparr>) (log (Emitting 0 (Val 5)) two_sync)) = Normal s1
         \<and> callbacks (heap s1 0) = [Fn 0]
         \<and> trace s1 = [Emitting 0 (Val 5), Called (Wrapped 0 0 (Resolve 0)) (Val 5),
              Called (Resolve 0) (Val 5), Called (Fn 0) (Val 5)]"
    by (simp add: two_sync_def unsub_other_env_def sync_defs)
  then obtain s1 where
    d: "dispatch unsub_other_env 0 0 (Val 5) [Wrapped 0 0 (Resolve 0), Fn 0]
              (upd 0 (\<lambda>e. e\<lparr>pvalue := Val 5\<rparr>) (log (Emitting 0 (Val 5)) two_sync)) = Normal s1"
    and c1: "callbacks (heap s1 0) = [Fn 0]"
    and t1: "trace s1 = [Emitting 0 (Val 5), Called (Wrapped 0 0 (Resolve 0)) (Val 5),
              Called (Resolve 0) (Val 5), Called (Fn 0) (Val 5)]"
    by blast
  from emit_dispatches_snapshot
         [of unsub_other_env 0 "Val 5" two_sync 0 "[Wrapped 0 0 (Resolve 0), Fn 0]" _ "[]" _ _ "Fn 1" s1,
          THEN conjunct2, THEN conjunct2, THEN conjunct1] h d
  have "emit unsub_other_env (Suc 0) 0 (Val 5) two_sync = Normal s1"
    by (simp add: c1 del: emit.simps)
  with d c1 t1 have p2: "\<exists>s1. dispatch unsub_other_env 0 0 (Val 5) [Wrapped 0 0 (Resolve 0), Fn 0]
              (upd 0 (\<lambda>e. e\<lparr>pvalue := Val 5\<rparr>) (log (Emitting 0 (Val 5)) two_sync)) = Normal s1
         \<and> Fn 1 \<notin> set (callbacks (heap s1 0))
         \<and> emit unsub_other_env (Suc 0) 0 (Val 5) two_sync = Normal s1
         \<and> trace s1 = [Emitting 0 (Val 5), Called (Wrapped 0 0 (Resolve 0)) (Val 5),
              Called (Resolve 0) (Val 5), Called (Fn 0) (Val 5)]"
    by (intro exI [of _ s1]) simp
  have k: "callbacks (heap two_sync 0) = [Wrapped 0 0 (Resolve 0), Fn 0] @ [Fn 1]"
    by (simp add: two_sync_def sync_defs)
  have "\<exists>s1. dispatch throwing_env 0 0 (Val 5) [Wrapped 0 0 (Resolve 0), Fn 0]
              (upd 0 (\<lambda>e. e\<lparr>pvalue := Val 5\<rparr>) (log (Emitting 0 (Val 5)) two_sync)) = Thrown s1"
    by (simp add: two_sync_def throwing_env_def sync_defs)
  then obtain s3 where
    d3: "dispatch throwing_env 0 0 (Val 5) [Wrapped 0 0 (Resolve 0), Fn 0]
              (upd 0 (\<lambda>e. e\<lparr>pvalue := Val 5\<rparr>) (log (Emitting 0 (Val 5)) two_sync)) = Thrown s3"
    by blast
  from emit_dispatches_snapshot
         [of throwing_env 0 "Val 5" two_sync 0 "[Wrapped 0 0 (Resolve 0), Fn 0]" _ "[Fn 1]" _ _ _ s3,
          THEN conjunct2, THEN conjunct2, THEN conjunct2] k d3
  have "emit throwing_env (Suc 0) 0 (Val 5) two_sync = Thrown s3"
    by (simp del: emit.simps)
  with d3 have p3: "\<exists>s1. dispatch throwing_env 0 0 (Val 5) [Wrapped 0 0 (Resolve 0), Fn 0]
              (upd 0 (\<lambda>e. e\<lparr>pvalue := Val 5\<rparr>) (log (Emitting 0 (Val 5)) two_sync)) = Thrown s1
         \<and> emit throwing_env (Suc 0) 0 (Val 5) two_sync = Thrown s1"
    by blast
  from q p1 g gq gb pt h p2 k p3 show ?thesis by blast
qed

section \<open>EventEmitter: what a callback reads in \<open>value\<close>\<close>

lemma latest_append: "latest vals (xs @ ys) = latest (latest vals xs) ys"
proof (induction xs arbitrary: vals)
  case (Cons e es)
  then show ?case by (cases e) (simp_all del: fun_upd_apply)
qed simp

lemma consistent_append:
  "consistent vals (xs @ ys) \<longleftrightarrow> consistent vals xs \<and> consistent (latest vals xs) ys"
proof (induction xs arbitrary: vals)
  case (Cons e es)
  then show ?case by (cases e) (simp_all del: fun_upd_apply)
qed simp

lemma extends_refl: "extends s s"
  by (auto simp: extends_def intro: exI [of _ "[]"])

lemma extends_trans: "extends s s1 \<Longrightarrow> extends s1 s2 \<Longrightarrow> extends s s2"
  unfolding extends_def
proof (elim exE conjE)
  fix tr1 tr2
  assume "trace s1 = trace s @ tr1" "consistent (stored s) tr1" "stored s1 = latest (stored s) tr1"
    "trace s2 = trace s1 @ tr2" "consistent (stored s1) tr2" "stored s2 = latest (stored s1) tr2"
  then have "trace s2 = trace s @ (tr1 @ tr2) \<and> consistent (stored s) (tr1 @ tr2)
      \<and> stored s2 = latest (stored s) (tr1 @ tr2)"
    by (simp add: consistent_append latest_append)
  then show "\<exists>tr. trace s2 = trace s @ tr \<and> consistent (stored s) tr \<and> stored s2 = latest (stored s) tr"
    by blast
qed

lemma extends_same: "trace s' = trace s \<Longrightarrow> stored s' = stored s \<Longrightarrow> extends s s'"
  by (auto simp: extends_def intro: exI [of _ "[]"])

lemma extends_called: "extends s (log (Called c v) s)"
  by (auto simp: extends_def intro: exI [of _ "[Called c v]"])

lemma extends_observed: "extends s (log (Observed b (pvalue (heap s b))) s)"
  by (auto simp: extends_def stored_def intro!: exI [of _ "[Observed b (pvalue (heap s b))]"])

lemma extends_emitting: "extends s (upd a (\<lambda>e. e\<lparr>pvalue := v\<rparr>) (log (Emitting a v) s))"
  by (auto simp: extends_def intro!: exI [of _ "[Emitting a v]"])

lemma sound_pre: "extends s0 s \<Longrightarrow> sound s r \<Longrightarrow> sound s0 r"
  by (cases r) (auto simp: sound_def intro: extends_trans)

lemma sound_Normal: "extends s s' \<Longrightarrow> sound s (Normal s')"
  by (simp add: sound_def)

lemma sound_bind:
  assumes "sound s r" and "\<And>s'. r = Normal s' \<Longrightarrow> sound s' (f s')"
  shows "sound s (case r of Normal s' \<Rightarrow> f s' | Thrown s' \<Rightarrow> Thrown s' | Diverges \<Rightarrow> Diverges)"
proof (cases r)
  case (Normal s')
  with assms(1) have "extends s s'" by (simp add: sound_def)
  from sound_pre [OF this assms(2) [OF Normal]] Normal show ?thesis by simp
qed (use assms(1) in \<open>simp_all add: sound_def\<close>)

lemma sound_all:
  "sound s (emit env n a v s)"
  "sound s (dispatch env n a v cs s)"
  "sound s (call env n c v s)"
  "sound s (run env n cmds s)"
proof (induction env n a v s and env n a v cs s and env n c v s and env n cmds s
       rule: emit_dispatch_call_run.induct)
  case (1 env a v s)
  show ?case by (simp add: sound_def)
next
  case (2 env n a v s)
  from 2 [OF refl] show ?case
    by (auto simp: Let_def intro: sound_pre [OF extends_emitting])
next
  case (3 env n a v s)
  show ?case by (simp add: sound_Normal extends_refl)
next
  case (4 env n a v c cs s)
  show ?case
  proof (cases "c \<in> set (callbacks (heap s a))")
    case True
    from sound_bind [of s "call env n c v s" "dispatch env n a v cs", OF "4.IH"(1) [OF True] "4.IH"(2) [OF True]]
    show ?thesis using True by simp
  next
    case False
    with "4.IH"(3) show ?thesis by simp
  qed
next
  case (5 env n f v s)
  from sound_pre [OF extends_called "5.IH"] show ?case by simp
next
  case (6 env n k a c v s)
  let ?w = "Wrapped k a c"
  have "sound (log (Called ?w v) s)
     (case call env n c v (log (Called ?w v) s) of
        Normal s' \<Rightarrow> Normal (unsubscribe a ?w s') | Thrown s' \<Rightarrow> Thrown s' | Diverges \<Rightarrow> Diverges)"
    by (rule sound_bind [OF "6.IH"]) (simp add: sound_Normal extends_same)
  from sound_pre [OF extends_called this] show ?case by simp
next
  case (7 env n a v s)
  have "extends (log (Called (Resolve a) v) s) (resolve a v (log (Called (Resolve a) v) s))"
    by (rule extends_same) simp_all
  from extends_trans [OF extends_called this] show ?case by (simp add: sound_Normal)
next
  case (8 env n k b g v s)
  from sound_pre [OF extends_called "8.IH"] show ?case by simp
next
  case (9 env n s)
  show ?case by (simp add: sound_Normal extends_refl)
next
  case (10 env n a c cmds s)
  have "extends s (subscribe a c s)" by (rule extends_same) simp_all
  from sound_pre [OF this "10.IH"] show ?case by simp
next
  case (11 env n a c cmds s)
  have "extends s (unsubscribe a c s)" by (rule extends_same) simp_all
  from sound_pre [OF this "11.IH"] show ?case by simp
next
  case (12 env n a v cmds s)
  from sound_bind [of s "emit env n a v s" "run env n cmds", OF "12.IH"(1) "12.IH"(2)]
  show ?case by simp
next
  case (13 env n a cmds s)
  from sound_pre [OF extends_observed "13.IH"] show ?case by simp
next
  case (14 env n cmds s)
  show ?case by (simp add: sound_def extends_refl)
qed


lemma consistent_unchanged:
  "consistent vals tr \<Longrightarrow> \<forall>w. Emitting a w \<notin> set tr \<Longrightarrow> Observed a x \<in> set tr \<Longrightarrow> x = vals a"
proof (induction tr arbitrary: vals)
  case (Cons e es)
  then show ?case by (cases e) (auto split: if_splits)
qed simp

text \<open>
  C10, as the code has it. \<open>emit(v)\<close> assigns \<open>_value\<close> before it invokes any callback, and
  from then on every read of \<open>value\<close>, of this emitter or of another, observes the
  argument of the latest \<open>emit\<close> entered on that emitter: the history that \<open>emit(v)\<close>
  adds after its own entry is consistent with the values stored at the entry, \<open>v\<close> for
  this emitter. So a callback that reads \<open>value\<close> during the dispatch observes \<open>v\<close> as long
  as \<open>emit\<close> has not been entered again on the emitter during the dispatch. This holds
  whether \<open>emit\<close> returns or a callback throws.
\<close>

theorem reads_observe_latest_emit:
  assumes "emit env n a v s = Normal s' \<or> emit env n a v s = Thrown s'"
  shows "\<exists>tr. trace s' = trace s @ Emitting a v # tr
      \<and> consistent ((stored s)(a := v)) tr
      \<and> ((\<forall>w. Emitting a w \<notin> set tr) \<longrightarrow> (\<forall>x. Observed a x \<in> set tr \<longrightarrow> x = v))"
proof -
  from assms obtain m where n: "n = Suc m"
    by (cases n) auto
  let ?s1 = "upd a (\<lambda>e. e\<lparr>pvalue := v\<rparr>) (log (Emitting a v) s)"
  from assms n have r: "dispatch env m a v (callbacks (heap ?s1 a)) ?s1 = Normal s'
      \<or> dispatch env m a v (callbacks (heap ?s1 a)) ?s1 = Thrown s'"
    by (simp add: Let_def)
  have "sound ?s1 (dispatch env m a v (callbacks (heap ?s1 a)) ?s1)"
    by (rule sound_all)
  with r have "extends ?s1 s'"
    by (auto simp: sound_def)
  then obtain tr where tr: "trace s' = trace ?s1 @ tr" "consistent (stored ?s1) tr"
    by (auto simp: extends_def)
  then have c: "consistent ((stored s)(a := v)) tr" by simp
  have "(\<forall>w. Emitting a w \<notin> set tr) \<longrightarrow> (\<forall>x. Observed a x \<in> set tr \<longrightarrow> x = v)"
    using consistent_unchanged [OF c, of a] by auto
  with tr(1) c show ?thesis by auto
qed

text \<open>
  C10, as stated, fails when a callback calls \<open>emit\<close> again: \<open>Fn 0\<close> receives 1 and calls
  \<open>emit(2)\<close>; when that call has returned, the dispatch of \<open>emit(1)\<close> goes on and invokes
  \<open>Fn 5\<close> with 1, which reads 2 in \<open>value\<close>.
\<close>

theorem reentrant_emit_changes_observed_value:
  "(case emit nested_env (Suc (Suc 0)) 0 (Val 1) emitter_and_reader of
      Normal s \<Rightarrow> trace s | Thrown s \<Rightarrow> [] | Diverges \<Rightarrow> [])
   = [Emitting 0 (Val 1), Called (Wrapped 0 0 (Resolve 0)) (Val 1), Called (Resolve 0) (Val 1),
      Called (Fn 0) (Val 1), Emitting 0 (Val 2), Called (Fn 0) (Val 2),
      Called (Fn 5) (Val 2), Observed 0 (Val 2),
      Called (Fn 5) (Val 1), Observed 0 (Val 2)]"
  by (simp add: nested_env_def emitter_and_reader_def sync_defs)

theorem reads_observe_latest_emit_witness:
  "\<exists>s' tr. emit nested_env (Suc (Suc 0)) 0 (Val 1) emitter_and_reader = Normal s'
      \<and> trace s' = Emitting 0 (Val 1) # tr
      \<and> consistent ((stored emitter_and_reader)(0 := Val 1)) tr
      \<and> Emitting 0 (Val 2) \<in> set tr"
proof -
  have "\<exists>s'. emit nested_env (Suc (Suc 0)) 0 (Val 1) emitter_and_reader = Normal s'
      \<and> trace s' = [Emitting 0 (Val 1), Called (Wrapped 0 0 (Resolve 0)) (Val 1), Called (Resolve 0) (Val 1),
      Called (Fn 0) (Val 1), Emitting 0 (Val 2), Called (Fn 0) (Val 2),
      Called (Fn 5) (Val 2), Observed 0 (Val 2),
      Called (Fn 5) (Val 1), Observed 0 (Val 2)]"
    by (simp add: nested_env_def emitter_and_reader_def sync_defs)
  then obtain s' where e: "emit nested_env (Suc (Suc 0)) 0 (Val 1) emitter_and_reader = Normal s'"
    and t: "trace s' = [Emitting 0 (Val 1), Called (Wrapped 0 0 (Resolve 0)) (Val 1), Called (Resolve 0) (Val 1),
      Called (Fn 0) (Val 1), Emitting 0 (Val 2), Called (Fn 0) (Val 2),
      Called (Fn 5) (Val 2), Observed 0 (Val 2),
      Called (Fn 5) (Val 1), Observed 0 (Val 2)]"
    by blast
  have t0: "trace emitter_and_reader = []"
    by (simp add: emitter_and_reader_def sync_defs)
  from reads_observe_latest_emit [OF disjI1 [OF e]] obtain tr where
    "trace s' = trace emitter_and_reader @ Emitting 0 (Val 1) # tr"
    "consistent ((stored emitter_and_reader)(0 := Val 1)) tr"
    by blast
  with e t t0 show ?thesis by auto
qed

section \<open>The stored value and the promise \<open>first\<close>\<close>

text \<open>
  C2. \<open>value\<close> is undefined before the first \<open>emit\<close> and is the argument of \<open>emit\<close>
  when \<open>emit\<close> returns. It does not stay so: the reaction attached to the promise behind
  \<open>first\<close> assigns the first emitted value to \<open>_value\<close> when it runs, after the
  synchronous code that called \<open>emit\<close> has finished. After \<open>emit("a")\<close> and \<open>emit("b")\<close>
  in the same synchronous run, \<open>value\<close> is \<open>"b"\<close>, and once \<open>first\<close> has settled it is
  \<open>"a"\<close>.
\<close>

theorem first_reaction_restores_first_value:
  "pvalue (heap (snd (new_emitter init)) 0) = (Undefined :: string jsval)
   \<and> (\<exists>s1 s2. emit env 1 0 (Val ''a'') (snd (new_emitter init)) = Normal s1
        \<and> pvalue (heap s1 0) = Val ''a''
        \<and> emit env 1 0 (Val ''b'') s1 = Normal s2
        \<and> pvalue (heap s2 0) = Val ''b''
        \<and> microtasks s2 = [(0, Val ''a'')]
        \<and> pvalue (heap (run_microtasks s2) 0) = Val ''a'')"
  by (simp add: sync_defs)

section \<open>EventEmitter: \<open>subscribeImmediate\<close>\<close>

text \<open>
  C8. \<open>subscribeImmediate(callback)\<close> subscribes the callback and invokes it at once
  when \<open>_value !== undefined\<close>. On a new emitter the callback is not invoked, and the
  next \<open>emit\<close> invokes it, after the earlier subscribers; after
  \<open>emit(5)\<close> it is invoked once, with 5, as specified. After \<open>emit(undefined)\<close>, the
  only emission that an \<open>EventEmitter<void>\<close> can make, the callback is not invoked
  although the event was emitted: the test cannot tell an emitted \<open>undefined\<close> from no
  emission. The value replayed is \<open>_value\<close>, which is the last emitted value when \<open>emit\<close>
  returns and the first emitted one once the reaction of \<open>first\<close> has run: after
  \<open>emit(1)\<close> and \<open>emit(2)\<close> the callback is invoked with 2, and with 1 when the
  microtasks have run in between.
\<close>

theorem subscribeImmediate_skips_emitted_undefined:
  "Option.bind (emit_all idle_env 0 [] fresh_emitter) replay
     = Some ([], [Wrapped 0 0 (Resolve 0), Fn 0])
   \<and> (case subscribeImmediate idle_env (Suc 0) 0 (Fn 0) fresh_emitter of
        Normal s \<Rightarrow> map_option trace (emit_all idle_env 0 [Val 5] s)
      | Thrown s \<Rightarrow> None | Diverges \<Rightarrow> None)
     = Some [Emitting 0 (Val 5), Called (Wrapped 0 0 (Resolve 0)) (Val 5),
             Called (Resolve 0) (Val 5), Called (Fn 0) (Val 5)]
   \<and> Option.bind (emit_all idle_env 0 [Val 5] fresh_emitter) replay
     = Some ([Called (Fn 0) (Val 5)], [Fn 0])
   \<and> Option.bind (emit_all idle_env 0 [Undefined] fresh_emitter) replay
     = Some ([], [Fn 0])
   \<and> Option.bind (emit_all idle_env 0 [Val 1, Val 2] fresh_emitter) replay
     = Some ([Called (Fn 0) (Val 2)], [Fn 0])
   \<and> Option.bind (map_option run_microtasks (emit_all idle_env 0 [Val 1, Val 2] fresh_emitter)) replay
     = Some ([Called (Fn 0) (Val 1)], [Fn 0])"
  by (simp add: replay_def idle_env_def fresh_emitter_def subscribeImmediate_def sync_defs)

section \<open>AsyncEventEmitter: the passing of time\<close>

lemma atrace_unsubscriptions [simp]:
  "atrace (fold (\<lambda>(T', a, w). aunsubscribe a w) ps s) = atrace s"
  by (induction ps arbitrary: s) (auto simp: aunsubscribe_def aupd_def)

lemma atrace_settle [simp]: "atrace (settle T s) = atrace s"
  by (simp add: settle_def)

lemma atrace_postpone [simp]: "atrace (postpone T a w s) = atrace s"
  by (simp add: postpone_def)

lemma aheap_postpone [simp]: "aheap (postpone T a w s) = aheap s"
  by (simp add: postpone_def)


section \<open>AsyncEventEmitter: the sequential strategy\<close>

lemma atrace_arun [simp]: "atrace (arun cmds s) = atrace s"
  by (induction cmds s rule: arun.induct) (simp_all add: asubscribe_def aunsubscribe_def aupd_def)

lemma upto_failure_Nil [simp]: "upto_failure env v [] = []"
  by (simp add: upto_failure_def)



lemma atrace_alog [simp]: "atrace (alog e s) = atrace s @ [e]"
  by (simp add: alog_def)

lemma aheap_alog [simp]: "aheap (alog e s) = aheap s"
  by (simp add: alog_def)

lemma atrace_aunsubscribe [simp]: "atrace (aunsubscribe a c s) = atrace s"
  by (simp add: aunsubscribe_def aupd_def)



lemma parallel_append:
  "parallel env n t v (xs @ ys) s
     = (case parallel env n t v xs s of
          None \<Rightarrow> None
        | Some (s', Inl e) \<Rightarrow> Some (s', Inl e)
        | Some (s', Inr ps) \<Rightarrow>
            (case parallel env n t v ys s' of
               None \<Rightarrow> None
             | Some (s'', Inl e) \<Rightarrow> Some (s'', Inl e)
             | Some (s'', Inr qs) \<Rightarrow> Some (s'', Inr (ps @ qs))))"
proof (induction xs arbitrary: s)
  case Nil
  show ?case by (simp split: option.splits prod.splits sum.splits)
next
  case (Cons x xs)
  show ?case
    by (simp add: Cons.IH split: option.splits prod.splits completion.splits sum.splits)
qed



section \<open>\<open>Promise.all\<close>\<close>

lemma earliest_le: "fst (earliest best ps) \<le> fst best"
  by (induction best ps rule: earliest.induct) (auto split: if_splits)

lemma earliest_lower:
  "(T, h, Rejected e) \<in> set ps \<Longrightarrow> fst (earliest best ps) \<le> T"
proof (induction best ps rule: earliest.induct)
  case (3 T0 h0 e0 T' h' e' ps)
  then show ?case
    using earliest_le [of "if T' < T0 \<or> (T' = T0 \<and> h' < h0) then (T', h', e') else (T0, h0, e0)" ps]
    by (auto split: if_splits)
qed auto

lemma earliest_mem:
  "earliest best ps = best
   \<or> (fst (earliest best ps), fst (snd (earliest best ps)), Rejected (snd (snd (earliest best ps))))
        \<in> set ps"
  by (induction best ps rule: earliest.induct) (auto split: if_splits)

lemma first_rejection_None:
  "first_rejection ps = None \<longleftrightarrow> (\<forall>T h e. (T, h, Rejected e) \<notin> set ps)"
  by (induction ps rule: first_rejection.induct) auto

lemma first_rejection_mem:
  "first_rejection ps = Some (T, h, e) \<Longrightarrow> (T, h, Rejected e) \<in> set ps"
proof (induction ps rule: first_rejection.induct)
  case (3 T' h' e' ps)
  then show ?case using earliest_mem [of "(T', h', e')" ps] by auto
qed auto

lemma first_rejection_least:
  "first_rejection ps = Some (T, h, e) \<Longrightarrow> (T', h', Rejected e') \<in> set ps \<Longrightarrow> T \<le> T'"
proof (induction ps rule: first_rejection.induct)
  case (3 T0 h0 e0 ps)
  then show ?case
    using earliest_le [of "(T0, h0, e0)" ps] earliest_lower [of T' h' e' ps "(T0, h0, e0)"]
    by (auto simp: fst_def split: prod.splits)
qed auto

section \<open>AsyncEventEmitter: the parallel strategy\<close>

lemma parallel_plain:
  "list_all (\<lambda>f. \<not> throws env v f) fs \<Longrightarrow>
   \<exists>s'. parallel env n t v (map Fn fs) s = Some (s', Inr (map (entry env v t) fs))
      \<and> atrace s' = atrace s @ map (\<lambda>f. Invoked (Fn f) v t) fs"
proof (induction fs arbitrary: s)
  case Nil
  show ?case by simp
next
  case (Cons f fs)
  from Cons.prems obtain d out where b: "snd (abody env f v) = Settles d out"
    by (cases "snd (abody env f v)") (auto simp: throws_def)
  let ?s1 = "arun (fst (abody env f v)) (alog (Invoked (Fn f) v t) s)"
  from Cons.prems have "list_all (\<lambda>f. \<not> throws env v f) fs" by simp
  from Cons.IH [OF this, of ?s1] obtain s' where
    s': "parallel env n t v (map Fn fs) ?s1 = Some (s', Inr (map (entry env v t) fs))"
    and tr: "atrace s' = atrace ?s1 @ map (\<lambda>f. Invoked (Fn f) v t) fs"
    by blast
  have a: "entry env v t f = (t + d, 0, out)"
    using b by (simp add: entry_def awaitable_def)
  from b s' tr a show ?case
    by (simp add: alog_def)
qed

lemma parallel_throwing:
  assumes "list_all (\<lambda>f. \<not> throws env v f) fs" and "snd (abody env f v) = Throws e"
  shows "\<exists>s'. parallel env n t v (map Fn (fs @ f # gs)) s = Some (s', Inl e)
      \<and> atrace s' = atrace s @ map (\<lambda>f. Invoked (Fn f) v t) (fs @ [f])"
proof -
  from parallel_plain [OF assms(1), of n t s] obtain s1 where
    p: "parallel env n t v (map Fn fs) s = Some (s1, Inr (map (entry env v t) fs))"
    and tr: "atrace s1 = atrace s @ map (\<lambda>f. Invoked (Fn f) v t) fs"
    by blast
  have "parallel env n t v (map Fn (fs @ f # gs)) s
      = Some (arun (fst (abody env f v)) (alog (Invoked (Fn f) v t) s1), Inl e)"
    using p assms(2) by (simp add: parallel_append)
  with tr show ?thesis by (simp add: alog_def)
qed


lemma entry_rejected:
  "entry env v t f = (T, h, Rejected e) \<Longrightarrow> awaitable env v t f = (T, Rejected e)"
  by (cases "awaitable env v t f") (simp add: entry_def)

lemma failing_entry:
  assumes "\<not> throws env v f" and "failure env v f \<noteq> None"
  shows "\<exists>d e. entry env v t f = (t + d, 0, Rejected e) \<and> awaitable env v t f = (t + d, Rejected e)"
proof -
  from assms obtain d e where "snd (abody env f v) = Settles d (Rejected e)"
    by (cases "snd (abody env f v)") (auto simp: failure_def throws_def split: outcome.splits)
  then show ?thesis by (simp add: entry_def awaitable_def)
qed

lemma parallel_failing:
  assumes "strategy (aheap s a) = Parallel" and "acallbacks (aheap s a) = map Fn fs"
    and "list_all (\<lambda>f. \<not> throws env v f) fs"
    and "list_ex (\<lambda>f. failure env v f \<noteq> None) fs"
  shows "\<exists>s' T e. aemit env (Suc n) t a v s = Some (s', T, Rejected e)
    \<and> atrace s' = atrace s @ AEmitting a v t # map (\<lambda>f. Invoked (Fn f) v t) fs
    \<and> list_ex (\<lambda>f. awaitable env v t f = (T, Rejected e)) fs
    \<and> list_all (\<lambda>f. failure env v f \<noteq> None \<longrightarrow> T \<le> fst (awaitable env v t f)) fs"
proof -
  let ?s1 = "alog (AEmitting a v t) s"
  let ?ps = "map (entry env v t) fs"
  from parallel_plain [OF assms(3), of n t ?s1] obtain s' where
    s': "parallel env n t v (map Fn fs) ?s1 = Some (s', Inr ?ps)"
    and tr: "atrace s' = atrace ?s1 @ map (\<lambda>f. Invoked (Fn f) v t) fs"
    by blast
  from assms(4) obtain f where f: "f \<in> set fs" "failure env v f \<noteq> None"
    by (auto simp: list_ex_iff)
  from assms(3) f have nt: "\<not> throws env v f" by (auto simp: list_all_iff)
  from failing_entry [OF nt f(2), of t] obtain d e0 where "entry env v t f = (t + d, 0, Rejected e0)"
    by blast
  with f(1) have "(t + d, 0, Rejected e0) \<in> set ?ps" by force
  then have "first_rejection ?ps \<noteq> None" by (auto simp: first_rejection_None)
  then obtain T h e where fr: "first_rejection ?ps = Some (T, h, e)" by auto
  then have pa: "promise_all t ?ps = (T, Rejected e)" by (simp add: promise_all_def)
  have res: "aemit env (Suc n) t a v s = Some (settle T s', T, Rejected e)"
    using assms(1,2) s' pa by (simp add: alog_def)
  have mem: "list_ex (\<lambda>f. awaitable env v t f = (T, Rejected e)) fs"
    using first_rejection_mem [OF fr] entry_rejected [of env v t _ T h e]
    by (auto simp: list_ex_iff) metis
  have least: "list_all (\<lambda>f. failure env v f \<noteq> None \<longrightarrow> T \<le> fst (awaitable env v t f)) fs"
    unfolding list_all_iff
  proof (intro ballI impI)
    fix g assume g: "g \<in> set fs" "failure env v g \<noteq> None"
    from assms(3) g have "\<not> throws env v g" by (auto simp: list_all_iff)
    from failing_entry [OF this g(2), of t] obtain d' e' where
      en: "entry env v t g = (t + d', 0, Rejected e')" and aw: "awaitable env v t g = (t + d', Rejected e')"
      by blast
    from en g(1) have "(t + d', 0, Rejected e') \<in> set ?ps" by force
    from first_rejection_least [OF fr this] aw show "T \<le> fst (awaitable env v t g)" by simp
  qed
  from res tr mem least show ?thesis by (simp add: alog_def)
qed

lemma parallel_fulfilled:
  assumes "strategy (aheap s a) = Parallel" and "acallbacks (aheap s a) = map Fn fs"
    and "list_all (\<lambda>f. failure env v f = None) fs"
  shows "\<exists>s'. aemit env (Suc n) t a v s
        = Some (s', fold max (map (\<lambda>f. fst (awaitable env v t f)) fs) t, Fulfilled)
    \<and> atrace s' = atrace s @ AEmitting a v t # map (\<lambda>f. Invoked (Fn f) v t) fs"
proof -
  let ?s1 = "alog (AEmitting a v t) s"
  let ?ps = "map (entry env v t) fs"
  have ok: "\<exists>d. snd (abody env f v) = Settles d Fulfilled" if "f \<in> set fs" for f
    using assms(3) that
    by (cases "snd (abody env f v)") (auto simp: list_all_iff failure_def split: outcome.splits)
  then have nt: "list_all (\<lambda>f. \<not> throws env v f) fs"
    by (fastforce simp: list_all_iff throws_def)
  from parallel_plain [OF nt, of n t ?s1] obtain s' where
    s': "parallel env n t v (map Fn fs) ?s1 = Some (s', Inr ?ps)"
    and tr: "atrace s' = atrace ?s1 @ map (\<lambda>f. Invoked (Fn f) v t) fs"
    by blast
  have ff: "snd (snd (entry env v t f)) = Fulfilled" if "f \<in> set fs" for f
    using ok [OF that] by (auto simp: entry_def awaitable_def)
  have "first_rejection ?ps = None"
    unfolding first_rejection_None
  proof (intro allI notI)
    fix T h e assume "(T, h, Rejected e) \<in> set ?ps"
    then obtain f where "f \<in> set fs" "entry env v t f = (T, h, Rejected e)" by auto
    with ff [of f] show False by simp
  qed
  moreover have "map fst ?ps = map (\<lambda>f. fst (awaitable env v t f)) fs"
    by (simp add: entry_def)
  ultimately have pa: "promise_all t ?ps
      = (fold max (map (\<lambda>f. fst (awaitable env v t f)) fs) t, Fulfilled)"
    by (simp only: promise_all_def option.case)
  have "aemit env (Suc n) t a v s
      = Some (settle (fold max (map (\<lambda>f. fst (awaitable env v t f)) fs) t) s',
              fold max (map (\<lambda>f. fst (awaitable env v t f)) fs) t, Fulfilled)"
    using assms(1,2) s' pa by (simp add: alog_def)
  with tr show ?thesis by (simp add: alog_def)
qed

lemma parallel_thrown:
  assumes "strategy (aheap s a) = Parallel" and "acallbacks (aheap s a) = map Fn (fs @ f # gs)"
    and "list_all (\<lambda>f. \<not> throws env v f) fs" and "snd (abody env f v) = Throws e"
  shows "\<exists>s'. aemit env (Suc n) t a v s = Some (s', t, Rejected e)
    \<and> atrace s' = atrace s @ AEmitting a v t # map (\<lambda>f. Invoked (Fn f) v t) (fs @ [f])"
proof -
  let ?s1 = "alog (AEmitting a v t) s"
  from parallel_throwing [OF assms(3,4), of n t gs ?s1] obtain s' where
    "parallel env n t v (map Fn (fs @ f # gs)) ?s1 = Some (s', Inl e)"
    "atrace s' = atrace ?s1 @ map (\<lambda>f. Invoked (Fn f) v t) (fs @ [f])"
    by blast
  with assms(1,2) show ?thesis by (simp add: alog_def)
qed

text \<open>
  C4, as the code has it, for subscribers that are functions of the application, under
  the parallel strategy. When none of them throws, every subscriber is called at the time
  of the \<open>emit\<close>, in the order of the subscriber sequence. If the awaitable of at least
  one of them is rejected, the promise of \<open>emit\<close> is rejected with the error of a
  subscriber, at the time at which that subscriber's awaitable is rejected, which is the
  earliest time at which any of them is rejected: the promise does not wait for the
  subscribers that settle later. If every awaitable is fulfilled, the promise is fulfilled
  when the last of them is. When a subscriber throws, the subscribers after it are not
  called, and the promise is rejected at the time of the \<open>emit\<close> with what was thrown.
\<close>

theorem parallel_emit_rejects_at_first_failure:
  "(strategy (aheap s a) = Parallel \<and> acallbacks (aheap s a) = map Fn fs
      \<and> list_all (\<lambda>f. \<not> throws env v f) fs \<and> list_ex (\<lambda>f. failure env v f \<noteq> None) fs \<longrightarrow>
      (\<exists>s' T e. aemit env (Suc n) t a v s = Some (s', T, Rejected e)
         \<and> atrace s' = atrace s @ AEmitting a v t # map (\<lambda>f. Invoked (Fn f) v t) fs
         \<and> list_ex (\<lambda>f. awaitable env v t f = (T, Rejected e)) fs
         \<and> list_all (\<lambda>f. failure env v f \<noteq> None \<longrightarrow> T \<le> fst (awaitable env v t f)) fs))
   \<and> (strategy (aheap s a) = Parallel \<and> acallbacks (aheap s a) = map Fn fs
      \<and> list_all (\<lambda>f. failure env v f = None) fs \<longrightarrow>
      (\<exists>s'. aemit env (Suc n) t a v s
             = Some (s', fold max (map (\<lambda>f. fst (awaitable env v t f)) fs) t, Fulfilled)
         \<and> atrace s' = atrace s @ AEmitting a v t # map (\<lambda>f. Invoked (Fn f) v t) fs))
   \<and> (strategy (aheap s a) = Parallel \<and> acallbacks (aheap s a) = map Fn (fs @ f # gs)
      \<and> list_all (\<lambda>f. \<not> throws env v f) fs \<and> snd (abody env f v) = Throws e \<longrightarrow>
      (\<exists>s'. aemit env (Suc n) t a v s = Some (s', t, Rejected e)
         \<and> atrace s' = atrace s @ AEmitting a v t # map (\<lambda>f. Invoked (Fn f) v t) (fs @ [f])))"
  using parallel_failing [of s a fs env v n t] parallel_fulfilled [of s a fs env v n t]
    parallel_thrown [of s a fs f gs env v e n t]
  by blast


text \<open>
  C4, as stated, fails: the promise of \<open>emit\<close> is rejected at time 1, when the first
  subscriber fails, and the second subscriber settles at time 5.
\<close>

theorem parallel_emit_rejects_before_all_settle:
  "map_option snd (aemit early_failure_env 1 0 0 (Val 5) two_parallel) = Some (1, Rejected 7)
   \<and> map_option (\<lambda>(s, r). atrace s) (aemit early_failure_env 1 0 0 (Val 5) two_parallel)
       = Some [AEmitting 0 (Val 5) 0, Invoked (Fn 0) (Val 5) 0, Invoked (Fn 1) (Val 5) 0]
   \<and> awaitable early_failure_env (Val 5) 0 1 = (5, Fulfilled)"
  by (simp add: early_failure_env_def two_parallel_def async_defs awaitable_def)

theorem parallel_emit_rejects_at_first_failure_witness:
  "strategy (aheap two_parallel 0) = Parallel
   \<and> acallbacks (aheap two_parallel 0) = map Fn [0, 1]
   \<and> list_all (\<lambda>f. \<not> throws early_failure_env (Val 5) f) [0, 1]
   \<and> list_ex (\<lambda>f. failure early_failure_env (Val 5) f \<noteq> None) [0, 1]
   \<and> (\<exists>s'. aemit early_failure_env (Suc 0) 0 0 (Val 5) two_parallel = Some (s', 1, Rejected 7)
         \<and> atrace s' = [AEmitting 0 (Val 5) 0, Invoked (Fn 0) (Val 5) 0, Invoked (Fn 1) (Val 5) 0])
   \<and> list_all (\<lambda>f. failure idle_aenv (Val 5) f = None) [0, 1]
   \<and> (\<exists>s'. aemit idle_aenv (Suc 0) 0 0 (Val 5) two_parallel = Some (s', 1, Fulfilled)
         \<and> atrace s' = [AEmitting 0 (Val 5) 0, Invoked (Fn 0) (Val 5) 0, Invoked (Fn 1) (Val 5) 0])
   \<and> strategy (aheap (three_subscribers Parallel) 0) = Parallel
   \<and> acallbacks (aheap (three_subscribers Parallel) 0) = map Fn ([0] @ 1 # [2])
   \<and> list_all (\<lambda>f. \<not> throws sync_failure_env (Val 5) f) [0]
   \<and> snd (abody sync_failure_env 1 (Val 5)) = Throws 9
   \<and> (\<exists>s'. aemit sync_failure_env (Suc 0) 0 0 (Val 5) (three_subscribers Parallel)
              = Some (s', 0, Rejected 9)
         \<and> atrace s' = [AEmitting 0 (Val 5) 0, Invoked (Fn 0) (Val 5) 0, Invoked (Fn 1) (Val 5) 0])"
proof -
  have h1: "strategy (aheap two_parallel 0) = Parallel"
    and h2: "acallbacks (aheap two_parallel 0) = map Fn [0, 1]"
    and tr: "atrace two_parallel = []"
    by (simp_all add: two_parallel_def async_defs)
  have h3: "list_all (\<lambda>f. \<not> throws early_failure_env (Val 5) f) [0, 1]"
    by (simp add: throws_def early_failure_env_def)
  have h4: "list_ex (\<lambda>f. failure early_failure_env (Val 5) f \<noteq> None) [0, 1]"
    by (simp add: failure_def early_failure_env_def)
  note t = parallel_emit_rejects_at_first_failure
  from t [of two_parallel 0 "[0, 1]" early_failure_env "Val 5" 0 0, THEN conjunct1] h1 h2 h3 h4
  obtain s' T e where
    r: "aemit early_failure_env (Suc 0) 0 0 (Val 5) two_parallel = Some (s', T, Rejected e)"
    and a: "atrace s' = atrace two_parallel @ AEmitting 0 (Val 5) 0 # map (\<lambda>f. Invoked (Fn f) (Val 5) 0) [0, 1]"
    and m: "list_ex (\<lambda>f. awaitable early_failure_env (Val 5) 0 f = (T, Rejected e)) [0, 1]"
    by blast
  from m have "T = 1 \<and> e = 7"
    by (simp add: awaitable_def early_failure_env_def)
  with r a have p1: "\<exists>s'. aemit early_failure_env (Suc 0) 0 0 (Val 5) two_parallel = Some (s', 1, Rejected 7)
         \<and> atrace s' = [AEmitting 0 (Val 5) 0, Invoked (Fn 0) (Val 5) 0, Invoked (Fn 1) (Val 5) 0]"
    by (simp add: tr del: aemit.simps)
  have h5: "list_all (\<lambda>f. failure idle_aenv (Val 5) f = None) [0, 1]"
    by (simp add: failure_def idle_aenv_def)
  have m5: "fold max (map (\<lambda>f. fst (awaitable idle_aenv (Val 5) 0 f)) [0, 1]) 0 = 1"
    by (simp add: awaitable_def idle_aenv_def)
  from t [of two_parallel 0 "[0, 1]" idle_aenv "Val 5" 0 0, THEN conjunct2, THEN conjunct1] h1 h2 h5
  have p2: "\<exists>s'. aemit idle_aenv (Suc 0) 0 0 (Val 5) two_parallel = Some (s', 1, Fulfilled)
         \<and> atrace s' = [AEmitting 0 (Val 5) 0, Invoked (Fn 0) (Val 5) 0, Invoked (Fn 1) (Val 5) 0]"
    unfolding m5 by (simp add: tr del: aemit.simps)
  have k1: "strategy (aheap (three_subscribers Parallel) 0) = Parallel"
    and k2: "acallbacks (aheap (three_subscribers Parallel) 0) = map Fn ([0] @ 1 # [2])"
    and tr3: "atrace (three_subscribers Parallel :: nat astate) = []"
    by (simp_all add: three_subscribers_def async_defs)
  have k3: "list_all (\<lambda>f. \<not> throws sync_failure_env (Val 5) f) [0]"
    by (simp add: throws_def sync_failure_env_def)
  have k4: "snd (abody sync_failure_env 1 (Val 5)) = Throws 9"
    by (simp add: sync_failure_env_def)
  from t [of "three_subscribers Parallel" 0 "[0]" sync_failure_env "Val 5" 0 0 1 "[2]" 9,
          THEN conjunct2, THEN conjunct2] k1 k2 k3 k4
  have p3: "\<exists>s'. aemit sync_failure_env (Suc 0) 0 0 (Val 5) (three_subscribers Parallel)
              = Some (s', 0, Rejected 9)
         \<and> atrace s' = [AEmitting 0 (Val 5) 0, Invoked (Fn 0) (Val 5) 0, Invoked (Fn 1) (Val 5) 0]"
    by (simp add: tr3 del: aemit.simps)
  from h1 h2 h3 h4 p1 h5 p2 k1 k2 k3 k4 p3 show ?thesis by blast
qed

section \<open>Mutation of the subscriber sequence during an asynchronous dispatch\<close>

text \<open>
  C3. \<open>AsyncEventEmitter.emit\<close> iterates over the copy of \<open>callbacks\<close> without the test
  \<open>this.callbacks.includes(callback)\<close> that \<open>EventEmitter.emit\<close> makes. When the first
  subscriber unsubscribes the second, the second is called all the same, under both
  strategies, although it is no longer in the subscriber sequence (which is \<open>[Fn 0]\<close> at
  its turn and afterwards); \<open>EventEmitter.emit\<close> skips it in the same situation.
\<close>

theorem async_emit_calls_removed_callback:
  "map_option (\<lambda>(s, r). (atrace s, acallbacks (aheap s 0)))
       (aemit unsub_other_aenv 1 0 0 (Val 5) (two_async Sequential))
     = Some ([AEmitting 0 (Val 5) 0, Invoked (Fn 0) (Val 5) 0, Invoked (Fn 1) (Val 5) 0], [Fn 0])
   \<and> map_option (\<lambda>(s, r). (atrace s, acallbacks (aheap s 0)))
       (aemit unsub_other_aenv 1 0 0 (Val 5) (two_async Parallel))
     = Some ([AEmitting 0 (Val 5) 0, Invoked (Fn 0) (Val 5) 0, Invoked (Fn 1) (Val 5) 0], [Fn 0])
   \<and> (case emit unsub_other_env 1 0 (Val 5) two_sync of
         Normal s \<Rightarrow> filter (\<lambda>e. e = Called (Fn 0) (Val 5) \<or> e = Called (Fn 1) (Val 5)) (trace s)
       | _ \<Rightarrow> []) = [Called (Fn 0) (Val 5)]"
  by (simp add: unsub_other_aenv_def unsub_other_env_def two_async_def two_sync_def async_defs sync_defs)

section \<open>AsyncEventEmitter: dispatch to quiet callbacks\<close>

lemma enqueue_mset [simp]: "mset (enqueue x xs) = add_mset x (mset xs)"
  by (induction xs) auto

lemma enqueue_map_mset [simp]: "mset (map f (enqueue x xs)) = add_mset (f x) (mset (map f xs))"
  by (induction xs) auto

lemma enqueue_set [simp]: "set (enqueue x xs) = insert x (set xs)"
  by (induction xs) auto

lemma apending_postpone [simp]: "apending (postpone T a w s) = enqueue (T, a, w) (apending s)"
  by (simp add: postpone_def)

lemma apending_alog [simp]: "apending (alog e s) = apending s"
  by (simp add: alog_def)




lemma unsubscriptions_pending [simp]:
  "apending (fold (\<lambda>(T', a, w). aunsubscribe a w) ps s) = apending s"
  by (induction ps arbitrary: s) (auto simp: aunsubscribe_def aupd_def)




lemma fold_max_lower: "(t :: nat) \<le> fold max xs t"
  by (induction xs arbitrary: t) (auto intro: order_trans [OF max.cobounded2])












section \<open>\<open>subscribeOnce\<close>\<close>

lemma calls_of_append [simp]: "calls_of w (xs @ ys) = calls_of w xs @ calls_of w ys"
proof (induction xs)
  case (Cons e es)
  then show ?case by (cases e) simp_all
qed simp

lemma calls_of_observed [simp]: "calls_of w (observed vals cmds) = []"
  by (induction vals cmds rule: observed.induct) simp_all




lemma reaches_refl [simp]: "reaches c c"
  by (cases c) simp_all










section \<open>\<open>pipe\<close>\<close>
















end
